theory Spec2Isabelle
  imports Main "HOL-Library.Sublist"
begin

section \<open>Data model\<close>

text \<open>
  Python values are modelled as follows.  A \<^verbatim>\<open>str\<close> is the list of its Unicode code
  points, a byte is a natural number, a token id is an \<^typ>\<open>int\<close>.  A \<^verbatim>\<open>dict\<close> whose
  iteration order matters is the list of its items in insertion order; one that is only
  looked up is a map.  Every \<^verbatim>\<open>raise\<close> of the modelled code is a value \<open>Inl e\<close>.
\<close>

datatype py_error = ValueError | KeyError | IndexError | UnicodeEncodeError | OverflowError

type_synonym ustr = "nat list"

definition ustr_of :: "string \<Rightarrow> ustr" where
  "ustr_of s = map of_char s"

definition dict_of :: "('k \<times> 'v) list \<Rightarrow> ('k \<rightharpoonup> 'v)" where
  \<comment> \<open>a dict built by inserting the items in order: a later item overwrites an earlier one\<close>
  "dict_of kvs = map_of (rev kvs)"

section \<open>Byte-to-unicode table (\<^verbatim>\<open>BpeTokenizerPy._build_bytes_to_unicode\<close>)\<close>

definition printable_bytes :: "nat list" where
  "printable_bytes = [33..<127] @ [161..<173] @ [174..<256]"

text \<open>One iteration of \<^verbatim>\<open>for b in range(256)\<close>; the state is \<open>(bs, cs, n)\<close>.\<close>

fun b2u_step :: "nat \<Rightarrow> nat list \<times> nat list \<times> nat \<Rightarrow> nat list \<times> nat list \<times> nat" where
  "b2u_step b (bs, cs, n) =
     (if b \<notin> set bs then (bs @ [b], cs @ [256 + n], n + 1) else (bs, cs, n))"

definition build_bytes_to_unicode :: "(nat \<times> nat) list" where
  "build_bytes_to_unicode =
     (case fold b2u_step [0..<256] (printable_bytes, printable_bytes, 0) of
        (bs, cs, n) \<Rightarrow> zip bs cs)"

definition byte_encoder :: "nat \<rightharpoonup> nat" where
  "byte_encoder = dict_of build_bytes_to_unicode"

definition byte_decoder :: "nat \<rightharpoonup> nat" where
  "byte_decoder = dict_of (map (\<lambda>(k, v). (v, k)) build_bytes_to_unicode)"

text \<open>The bytes that the loop appends, in the order in which it meets them (used in proofs).\<close>

definition other_bytes :: "nat list" where
  "other_bytes = [0..<33] @ [127..<161] @ [173]"

section \<open>BPE merge (\<^verbatim>\<open>_get_pairs\<close>, \<^verbatim>\<open>_bpe\<close>)\<close>

text \<open>
  \<^verbatim>\<open>_get_pairs\<close> returns a Python \<^verbatim>\<open>set\<close>.  The model keeps the pairs as a
  duplicate-free list in order of first occurrence; \<open>prev\<close> is \<open>None\<close> before the first
  symbol.
\<close>

fun get_pairs_loop :: "'a option \<Rightarrow> 'a list \<Rightarrow> ('a \<times> 'a) list \<Rightarrow> ('a \<times> 'a) list" where
  "get_pairs_loop prev [] pairs = pairs"
| "get_pairs_loop prev (ch # word) pairs =
     get_pairs_loop (Some ch) word
       (case prev of
          None \<Rightarrow> pairs
        | Some p \<Rightarrow> if (p, ch) \<in> set pairs then pairs else pairs @ [(p, ch)])"

definition get_pairs :: "'a list \<Rightarrow> ('a \<times> 'a) list" where
  "get_pairs word = get_pairs_loop None word []"

text \<open>
  Python's \<^verbatim>\<open>min(xs, key=k)\<close>: the first element whose key is smallest; on an empty
  collection it raises \<^verbatim>\<open>ValueError\<close>.
\<close>

fun min_by :: "('a \<Rightarrow> nat) \<Rightarrow> 'a \<Rightarrow> 'a list \<Rightarrow> 'a" where
  "min_by key best [] = best"
| "min_by key best (x # xs) = min_by key (if key x < key best then x else best) xs"

definition py_min :: "('a \<Rightarrow> nat) \<Rightarrow> 'a list \<Rightarrow> py_error + 'a" where
  "py_min key xs = (case xs of [] \<Rightarrow> Inl ValueError | x # rest \<Rightarrow> Inr (min_by key x rest))"

type_synonym ranks = "ustr \<times> ustr \<rightharpoonup> nat"

definition rank_key :: "ranks \<Rightarrow> ustr \<times> ustr \<Rightarrow> nat" where
  \<comment> \<open>\<^verbatim>\<open>lambda p: self.bpe_ranks.get(p, 10**9)\<close>\<close>
  "rank_key rk p = (case rk p of None \<Rightarrow> 10 ^ 9 | Some r \<Rightarrow> r)"

text \<open>
  The innermost loop of \<^verbatim>\<open>_bpe\<close>, \<^verbatim>\<open>while j < len(word)\<close>: the first index
  \<open>\<ge> j\<close> at which \<open>word\<close> holds \<open>first\<close>, \<open>None\<close> when \<^verbatim>\<open>found\<close> stays false.
\<close>

function find_symbol :: "'a list \<Rightarrow> 'a \<Rightarrow> nat \<Rightarrow> nat option" where
  "find_symbol word first j =
     (if j < length word then
        if word ! j = first then Some j else find_symbol word first (j + 1)
      else None)"
  by pat_completeness auto
termination
  by (relation "measure (\<lambda>(word, first, j). length word - j)") auto

declare find_symbol.simps [simp del]

text \<open>
  The loop \<^verbatim>\<open>while i < len(word)\<close> that builds \<^verbatim>\<open>new_word\<close>;
  \<^verbatim>\<open>word[i:j]\<close> is \<open>take (j - i) (drop i word)\<close>.
\<close>

function merge_loop ::
  "'a list \<Rightarrow> 'a list \<Rightarrow> 'a list list \<Rightarrow> nat \<Rightarrow> 'a list list \<Rightarrow> 'a list list"
where
  "merge_loop first second word i new_word =
     (if i < length word then
        (case find_symbol word first i of
           None \<Rightarrow> new_word @ drop i word
         | Some j \<Rightarrow>
             if j < length word - 1 \<and> word ! j = first \<and> word ! (j + 1) = second
             then merge_loop first second word (j + 2)
                    (new_word @ take (j - i) (drop i word) @ [first @ second])
             else merge_loop first second word (j + 1)
                    (new_word @ take (j - i) (drop i word) @ [word ! j]))
      else new_word)"
  by pat_completeness auto
termination
proof (relation "measure (\<lambda>(first, second, word, i, new_word). length word - i)")
  have ge: "find_symbol word first i = Some j \<Longrightarrow> i \<le> j"
    for word :: "'a list list" and first i j
    by (induction word first i rule: find_symbol.induct)
      (subst (asm) find_symbol.simps, auto split: if_splits)
  fix first second :: "'a list" and word :: "'a list list" and i :: nat
    and new_word :: "'a list list" and j :: nat
  assume i: "i < length word" and j: "find_symbol word first i = Some j"
  show "((first, second, word, j + 2, new_word @ take (j - i) (drop i word) @ [first @ second]),
         (first, second, word, i, new_word))
        \<in> measure (\<lambda>(first, second, word, i, new_word). length word - i)"
    using i ge [OF j] by simp
  show "((first, second, word, j + 1, new_word @ take (j - i) (drop i word) @ [word ! j]),
         (first, second, word, i, new_word))
        \<in> measure (\<lambda>(first, second, word, i, new_word). length word - i)"
    using i ge [OF j] by simp
qed simp

declare merge_loop.simps [simp del]

text \<open>
  The outer \<^verbatim>\<open>while True\<close> loop.  At its head \<^verbatim>\<open>pairs\<close> is always
  \<^verbatim>\<open>_get_pairs(word)\<close>, so the state is \<open>word\<close> alone.  Its termination is proved
  below, once the merge is known to shorten the word.
\<close>

function bpe_loop :: "ranks \<Rightarrow> ustr list \<Rightarrow> py_error + ustr list" where
  "bpe_loop rk word =
     (case py_min (rank_key rk) (get_pairs word) of
        Inl e \<Rightarrow> Inl e
      | Inr bigram \<Rightarrow>
          if rk bigram = None then Inr word
          else let new_word = merge_loop (fst bigram) (snd bigram) word 0 []
               in if length new_word = 1 then Inr new_word
                  else bpe_loop rk new_word)"
  by pat_completeness auto

definition bpe :: "ranks \<Rightarrow> ustr \<Rightarrow> py_error + ustr list" where
  "bpe rk token =
     (if token = [] then Inr []
      else let word = map (\<lambda>c. [c]) token
           in if get_pairs word = [] then Inr [token] else bpe_loop rk word)"

text \<open>
  The merge step as the specification words it: every non-overlapping occurrence of the
  pair, from left to right, is replaced by the concatenation of its two symbols.
\<close>

fun replace_pairs :: "'a list \<Rightarrow> 'a list \<Rightarrow> 'a list list \<Rightarrow> 'a list list" where
  "replace_pairs first second [] = []"
| "replace_pairs first second [x] = [x]"
| "replace_pairs first second (x # y # rest) =
     (if x = first \<and> y = second then (first @ second) # replace_pairs first second rest
      else x # replace_pairs first second (y # rest))"

text \<open>The adjacent pairs of a word, as the specification speaks of them.\<close>

definition adjacent :: "'a list \<Rightarrow> ('a \<times> 'a) set" where
  "adjacent word = set (zip word (tl word))"

text \<open>
  A pair is the lowest-ranked eligible pair of a word when it is adjacent in the word, has
  a rank, and no adjacent pair with a rank has a smaller one.
\<close>

definition lowest_ranked :: "ranks \<Rightarrow> ustr list \<Rightarrow> ustr \<times> ustr \<Rightarrow> bool" where
  "lowest_ranked rk word p \<longleftrightarrow>
     p \<in> adjacent word \<and> rk p \<noteq> None \<and>
     (\<forall>q\<in>adjacent word. rk q \<noteq> None \<longrightarrow> the (rk p) \<le> the (rk q))"

text \<open>The merge table of the specification's example: \<open>("l", "o") \<rightarrow> 0\<close>, \<open>("lo", "w") \<rightarrow> 1\<close>.\<close>

definition low_ranks :: ranks where
  "low_ranks =
     [(ustr_of ''l'', ustr_of ''o'') \<mapsto> 0, (ustr_of ''lo'', ustr_of ''w'') \<mapsto> 1]"

section \<open>The tokenizer (\<^verbatim>\<open>BpeTokenizerPy\<close>)\<close>

text \<open>
  The fields of the object after \<^verbatim>\<open>__init__\<close>.  \<open>special_to_id\<close> is iterated by
  \<^verbatim>\<open>tokenize_to_ids\<close>, so it is the list of its items in insertion order (the order of
  \<^verbatim>\<open>added_tokens_decoder\<close>).  \<open>pattern\<close> stands for
  \<^verbatim>\<open>[m.group(0) for m in self.pattern.finditer(s)]\<close>: the regular-expression engine is a
  library, and the model takes the list of matches as a function of the segment.
\<close>

record tokenizer =
  vocab :: "ustr \<rightharpoonup> int"
  id_to_token :: "int \<rightharpoonup> ustr"
  bpe_ranks :: ranks
  special_to_id :: "(ustr \<times> int) list"
  id_to_special :: "int \<rightharpoonup> ustr"
  pattern :: "ustr \<Rightarrow> ustr list"

text \<open>
  \<^verbatim>\<open>str.encode('utf-8')\<close>, one code point at a time.  A surrogate cannot be encoded
  (\<^verbatim>\<open>UnicodeEncodeError\<close>); a number from \<open>0x110000\<close> on is no code point of a
  Python string and is rejected the same way.
\<close>

definition utf8_encode_char :: "nat \<Rightarrow> py_error + nat list" where
  "utf8_encode_char c =
     (if c < 0x80 then Inr [c]
      else if c < 0x800 then Inr [0xC0 + c div 64, 0x80 + c mod 64]
      else if 0xD800 \<le> c \<and> c < 0xE000 then Inl UnicodeEncodeError
      else if c < 0x10000 then
        Inr [0xE0 + c div 4096, 0x80 + (c div 64) mod 64, 0x80 + c mod 64]
      else if c < 0x110000 then
        Inr [0xF0 + c div 262144, 0x80 + (c div 4096) mod 64,
             0x80 + (c div 64) mod 64, 0x80 + c mod 64]
      else Inl UnicodeEncodeError)"

fun utf8_encode :: "ustr \<Rightarrow> py_error + nat list" where
  "utf8_encode [] = Inr []"
| "utf8_encode (c # cs) =
     (case utf8_encode_char c of
        Inl e \<Rightarrow> Inl e
      | Inr bs \<Rightarrow> (case utf8_encode cs of Inl e \<Rightarrow> Inl e | Inr rest \<Rightarrow> Inr (bs @ rest)))"

text \<open>\<^verbatim>\<open>''.join(self.byte_encoder[b] for b in ...)\<close>: a missing key raises \<^verbatim>\<open>KeyError\<close>.\<close>

fun encode_bytes :: "nat list \<Rightarrow> py_error + ustr" where
  "encode_bytes [] = Inr []"
| "encode_bytes (b # bs) =
     (case byte_encoder b of
        None \<Rightarrow> Inl KeyError
      | Some c \<Rightarrow> (case encode_bytes bs of Inl e \<Rightarrow> Inl e | Inr rest \<Rightarrow> Inr (c # rest)))"

definition unk_token :: ustr where
  "unk_token = ustr_of ''<unk>''"

definition vocab_id :: "(ustr \<rightharpoonup> int) \<Rightarrow> ustr \<Rightarrow> int" where
  \<comment> \<open>\<^verbatim>\<open>self.vocab.get(tok, self.vocab.get('<unk>', 0))\<close>\<close>
  "vocab_id v tok =
     (case v tok of
        Some i \<Rightarrow> i
      | None \<Rightarrow> (case v unk_token of Some u \<Rightarrow> u | None \<Rightarrow> 0))"

text \<open>The body of the loop of \<^verbatim>\<open>_encode_segment\<close>: the ids of one piece.\<close>

definition encode_piece :: "tokenizer \<Rightarrow> ustr \<Rightarrow> py_error + int list" where
  "encode_piece tk piece =
     (case utf8_encode piece of
        Inl e \<Rightarrow> Inl e
      | Inr bytes \<Rightarrow>
          (case encode_bytes bytes of
             Inl e \<Rightarrow> Inl e
           | Inr encoded \<Rightarrow>
               (case bpe (bpe_ranks tk) encoded of
                  Inl e \<Rightarrow> Inl e
                | Inr toks \<Rightarrow> Inr (map (vocab_id (vocab tk)) toks))))"

fun encode_pieces :: "tokenizer \<Rightarrow> ustr list \<Rightarrow> int list \<Rightarrow> py_error + int list" where
  "encode_pieces tk [] out = Inr out"
| "encode_pieces tk (piece # pieces) out =
     (case encode_piece tk piece of
        Inl e \<Rightarrow> Inl e
      | Inr ids \<Rightarrow> encode_pieces tk pieces (out @ ids))"

definition encode_segment :: "tokenizer \<Rightarrow> ustr \<Rightarrow> py_error + int list" where
  "encode_segment tk segment =
     (if segment = [] then Inr [] else encode_pieces tk (pattern tk segment) [])"

text \<open>
  \<^verbatim>\<open>text.find(tok, i)\<close>: the lowest index \<open>\<ge> i\<close> at which \<open>tok\<close> occurs in
  \<open>text\<close>, \<open>None\<close> for Python's \<open>-1\<close>.  \<open>find_sub tok s k\<close> searches the suffix \<open>s\<close>
  that starts at index \<open>k\<close>.
\<close>

fun find_sub :: "'a list \<Rightarrow> 'a list \<Rightarrow> nat \<Rightarrow> nat option" where
  "find_sub tok [] k = (if tok = [] then Some k else None)"
| "find_sub tok (x # xs) k =
     (if prefix tok (x # xs) then Some k else find_sub tok xs (Suc k))"

definition str_find :: "'a list \<Rightarrow> 'a list \<Rightarrow> nat \<Rightarrow> nat option" where
  "str_find text tok i = (if i \<le> length text then find_sub tok (drop i text) i else None)"

text \<open>
  The \<^verbatim>\<open>for tok in specials\<close> loop of \<^verbatim>\<open>tokenize_to_ids\<close>.  The state
  \<open>(next_pos, next_tok)\<close> is \<open>None\<close> while \<^verbatim>\<open>next_pos is None\<close>; the reserved id travels
  with the marker (the source reads it back with \<^verbatim>\<open>self.special_to_id[next_tok]\<close>).
\<close>

fun next_special ::
  "ustr \<Rightarrow> nat \<Rightarrow> (ustr \<times> int) list \<Rightarrow> (nat \<times> ustr \<times> int) option \<Rightarrow> (nat \<times> ustr \<times> int) option"
where
  "next_special text i [] nxt = nxt"
| "next_special text i ((tok, tid) # specials) nxt =
     next_special text i specials
       (case str_find text tok i of
          None \<Rightarrow> nxt
        | Some idx \<Rightarrow>
            (case nxt of
               None \<Rightarrow> Some (idx, tok, tid)
             | Some (next_pos, next_tok, next_id) \<Rightarrow>
                 if idx < next_pos then Some (idx, tok, tid) else nxt))"

text \<open>
  The \<^verbatim>\<open>while i < len(text)\<close> loop.  With an empty marker in the table the loop never
  advances, so it is a partial function: \<open>None\<close> means that the call does not return.
\<close>

partial_function (option) tokenize_loop ::
  "tokenizer \<Rightarrow> ustr \<Rightarrow> nat \<Rightarrow> int list \<Rightarrow> (py_error + int list) option"
where
  "tokenize_loop tk text i ids =
     (if i < length text then
        (case next_special text i (special_to_id tk) None of
           None \<Rightarrow>
             (case encode_segment tk (drop i text) of
                Inl e \<Rightarrow> Some (Inl e)
              | Inr seg \<Rightarrow> Some (Inr (ids @ seg)))
         | Some (next_pos, next_tok, next_id) \<Rightarrow>
             (case (if next_pos > i then encode_segment tk (take (next_pos - i) (drop i text))
                    else Inr []) of
                Inl e \<Rightarrow> Some (Inl e)
              | Inr seg \<Rightarrow>
                  tokenize_loop tk text (next_pos + length next_tok) (ids @ seg @ [next_id])))
      else Some (Inr ids))"

text \<open>
  \<^verbatim>\<open>np.array(ids, dtype=np.int64)\<close> raises \<^verbatim>\<open>OverflowError\<close> when an id does not fit
  into 64 bits.
\<close>

definition int64_array :: "int list \<Rightarrow> py_error + int list" where
  "int64_array ids =
     (if list_all (\<lambda>i. - (2 ^ 63) \<le> i \<and> i < 2 ^ 63) ids then Inr ids else Inl OverflowError)"

definition tokenize_to_ids :: "tokenizer \<Rightarrow> ustr \<Rightarrow> (py_error + int list) option" where
  "tokenize_to_ids tk text =
     (case tokenize_loop tk text 0 [] of
        None \<Rightarrow> None
      | Some (Inl e) \<Rightarrow> Some (Inl e)
      | Some (Inr ids) \<Rightarrow> Some (int64_array ids))"

text \<open>
  What the scan of the special-token table is to return, in the words of the amended
  specification: marker number \<open>k\<close> of the table occurs at \<open>pos\<close>, at or after the scan
  position \<open>i\<close>, and every marker of the table that occurs at all occurs later, or at the
  same index and not earlier in the table.
\<close>

definition chosen_marker :: "ustr \<Rightarrow> nat \<Rightarrow> (ustr \<times> int) list \<Rightarrow> nat \<Rightarrow> nat \<Rightarrow> bool" where
  "chosen_marker text i specials k pos \<longleftrightarrow>
     k < length specials \<and> str_find text (fst (specials ! k)) i = Some pos \<and>
     (\<forall>k'<length specials.
        case str_find text (fst (specials ! k')) i of
          None \<Rightarrow> True
        | Some pos' \<Rightarrow> pos < pos' \<or> (pos = pos' \<and> k \<le> k'))"

text \<open>The invariant of the scan: \<open>nxt\<close> is the choice among the markers read so far.\<close>

definition scan_inv :: "ustr \<Rightarrow> nat \<Rightarrow> (ustr \<times> int) list \<Rightarrow> (nat \<times> ustr \<times> int) option \<Rightarrow> bool" where
  "scan_inv text i pre nxt \<longleftrightarrow>
     (case nxt of
        None \<Rightarrow> \<forall>k<length pre. str_find text (fst (pre ! k)) i = None
      | Some (pos, tok, tid) \<Rightarrow>
          \<exists>k. chosen_marker text i pre k pos \<and> pre ! k = (tok, tid))"

text \<open>
  A small tokenizer for concrete runs: two markers of which one is a prefix of the other,
  one vocabulary entry, no \<open><unk>\<close> entry and no merges.  Its \<open>pattern\<close> returns the
  segment as a single piece, which is what the source's pattern does on a segment of
  Latin letters.
\<close>

definition demo_tokenizer :: tokenizer where
  "demo_tokenizer =
     \<lparr>vocab = [ustr_of ''c'' \<mapsto> 7],
      id_to_token = [7 \<mapsto> ustr_of ''c''],
      bpe_ranks = Map.empty,
      special_to_id = [(ustr_of ''ab'', 1), (ustr_of ''abc'', 2)],
      id_to_special = [1 \<mapsto> ustr_of ''ab'', 2 \<mapsto> ustr_of ''abc''],
      pattern = (\<lambda>segment. [segment])\<rparr>"

section \<open>Detokenization (\<^verbatim>\<open>BpeTokenizerPy.decode\<close>)\<close>

text \<open>The \<^verbatim>\<open>for ch in tok\<close> loop; \<open>bytes_list\<close> is the accumulator.\<close>

fun decode_chars :: "ustr \<Rightarrow> nat list \<Rightarrow> nat list" where
  "decode_chars [] bytes_list = bytes_list"
| "decode_chars (ch # tok) bytes_list =
     decode_chars tok
       (case byte_decoder ch of None \<Rightarrow> bytes_list | Some b \<Rightarrow> bytes_list @ [b])"

text \<open>The \<^verbatim>\<open>for tid in ids\<close> loop.\<close>

fun decode_ids :: "tokenizer \<Rightarrow> int list \<Rightarrow> nat list \<Rightarrow> nat list" where
  "decode_ids tk [] bytes_list = bytes_list"
| "decode_ids tk (tid # ids) bytes_list =
     decode_ids tk ids
       (if id_to_special tk tid \<noteq> None then bytes_list
        else case id_to_token tk tid of
               None \<Rightarrow> bytes_list
             | Some tok \<Rightarrow> decode_chars tok bytes_list)"

text \<open>\<^verbatim>\<open>bytearray(xs)\<close> raises \<^verbatim>\<open>ValueError\<close> unless every element is in \<open>range(256)\<close>.\<close>

definition bytearray :: "nat list \<Rightarrow> py_error + nat list" where
  "bytearray xs = (if list_all (\<lambda>b. b < 256) xs then Inr xs else Inl ValueError)"

text \<open>
  \<^verbatim>\<open>str.strip()\<close> removes the characters for which \<^verbatim>\<open>str.isspace\<close> holds from both
  ends.
\<close>

definition py_isspace :: "nat \<Rightarrow> bool" where
  "py_isspace c \<longleftrightarrow>
     (9 \<le> c \<and> c \<le> 13) \<or> (28 \<le> c \<and> c \<le> 32) \<or> c = 133 \<or> c = 160 \<or> c = 5760 \<or>
     (8192 \<le> c \<and> c \<le> 8202) \<or> c = 8232 \<or> c = 8233 \<or> c = 8239 \<or> c = 8287 \<or> c = 12288"

definition py_strip :: "ustr \<Rightarrow> ustr" where
  "py_strip s = rev (dropWhile py_isspace (rev (dropWhile py_isspace s)))"

text \<open>
  Python's UTF-8 decoder is a library function; \<open>decode\<close> takes its two modes as
  parameters: \<open>utf8_strict\<close> is \<^verbatim>\<open>bytes.decode('utf-8')\<close>, with \<open>None\<close> for
  \<^verbatim>\<open>UnicodeDecodeError\<close>, and \<open>utf8_ignore\<close> is \<^verbatim>\<open>bytes.decode(errors='ignore')\<close>,
  which never raises.  The \<^verbatim>\<open>except Exception\<close> handler runs the second expression
  whenever the first raised anything.
\<close>

definition decode ::
  "(nat list \<Rightarrow> ustr option) \<Rightarrow> (nat list \<Rightarrow> ustr) \<Rightarrow> tokenizer \<Rightarrow> int list \<Rightarrow> py_error + ustr"
where
  "decode utf8_strict utf8_ignore tk ids =
     (let bytes_list = decode_ids tk ids []
      in case (case bytearray bytes_list of Inl e \<Rightarrow> None | Inr bs \<Rightarrow> utf8_strict bs) of
           Some s \<Rightarrow> Inr (py_strip s)
         | None \<Rightarrow>
             (case bytearray bytes_list of
                Inl e \<Rightarrow> Inl e
              | Inr bs \<Rightarrow> Inr (py_strip (utf8_ignore bs))))"

text \<open>
  What one id contributes to the byte sequence, in the words of the specification: nothing
  for a special id or an id without a token string, otherwise the bytes of the characters
  of its token string that the byte decoder knows.
\<close>

definition token_bytes :: "tokenizer \<Rightarrow> int \<Rightarrow> nat list" where
  "token_bytes tk tid =
     (if id_to_special tk tid \<noteq> None then []
      else case id_to_token tk tid of
             None \<Rightarrow> []
           | Some tok \<Rightarrow> List.map_filter byte_decoder tok)"

section \<open>Embedding fusion (\<^verbatim>\<open>main\<close>, step 3)\<close>

text \<open>
  \<^verbatim>\<open>np.where(input_ids[0] == image_token_id)[0]\<close> and its first element, \<open>None\<close> when
  the array is empty.
\<close>

definition image_pos_arr :: "int list \<Rightarrow> int \<Rightarrow> nat list" where
  "image_pos_arr input_ids image_token_id =
     filter (\<lambda>i. input_ids ! i = image_token_id) [0..<length input_ids]"

definition image_pos_of :: "int list \<Rightarrow> int \<Rightarrow> nat option" where
  "image_pos_of input_ids image_token_id =
     (case image_pos_arr input_ids image_token_id of [] \<Rightarrow> None | p # ps \<Rightarrow> Some p)"

text \<open>
  An embedding vector is a value of an arbitrary type \<open>'v\<close>; a matrix is the list of its
  rows.  \<open>set_rows arr w vis\<close> is \<^verbatim>\<open>arr[0, w:w+T, :] = vis\<close>: the slice is clipped to
  the array, and NumPy raises \<^verbatim>\<open>ValueError\<close> unless the slice has \<open>T\<close> rows or
  \<open>vis\<close> has one row, which it then copies to every row of the slice.
\<close>

definition set_rows :: "'v list \<Rightarrow> nat \<Rightarrow> 'v list \<Rightarrow> py_error + 'v list" where
  "set_rows arr w vis =
     (let T = length vis; k = min (w + T) (length arr) - w
      in if k = T then Inr (take w arr @ vis @ drop (w + T) arr)
         else if T = 1 then Inr (take w arr @ replicate k (hd vis) @ drop (w + k) arr)
         else Inl ValueError)"

text \<open>One iteration of \<^verbatim>\<open>for i in range(L)\<close>; the state is \<open>(w, inputs_embeds)\<close>.\<close>

fun fuse_step ::
  "'v list \<Rightarrow> 'v list \<Rightarrow> nat \<Rightarrow> nat \<Rightarrow> nat \<times> 'v list \<Rightarrow> py_error + nat \<times> 'v list"
where
  "fuse_step text_emb vis_proj image_pos i (w, inputs_embeds) =
     (if i = image_pos then
        (case set_rows inputs_embeds w vis_proj of
           Inl e \<Rightarrow> Inl e
         | Inr arr \<Rightarrow> Inr (w + length vis_proj, arr))
      else if w < length inputs_embeds then Inr (w + 1, inputs_embeds[w := text_emb ! i])
      else Inl IndexError)"

fun fuse_loop ::
  "'v list \<Rightarrow> 'v list \<Rightarrow> nat \<Rightarrow> nat list \<Rightarrow> nat \<times> 'v list \<Rightarrow> py_error + nat \<times> 'v list"
where
  "fuse_loop text_emb vis_proj image_pos [] st = Inr st"
| "fuse_loop text_emb vis_proj image_pos (i # rest) st =
     (case fuse_step text_emb vis_proj image_pos i st of
        Inl e \<Rightarrow> Inl e
      | Inr st' \<Rightarrow> fuse_loop text_emb vis_proj image_pos rest st')"

text \<open>
  \<open>zero\<close> is a row of \<^verbatim>\<open>np.zeros\<close>.  \<^verbatim>\<open>total_len = L - 1 + T\<close> is negative only
  for \<open>L = T = 0\<close>, where \<^verbatim>\<open>np.zeros\<close> raises \<^verbatim>\<open>ValueError\<close>.
\<close>

definition fuse_embeddings :: "'v \<Rightarrow> 'v list \<Rightarrow> 'v list \<Rightarrow> nat \<Rightarrow> py_error + 'v list" where
  "fuse_embeddings zero text_emb vis_proj image_pos =
     (let L = length text_emb; T = length vis_proj
      in if L + T = 0 then Inl ValueError
         else case fuse_loop text_emb vis_proj image_pos [0..<L]
                     (0, replicate (L + T - 1) zero) of
                Inl e \<Rightarrow> Inl e
              | Inr (w, inputs_embeds) \<Rightarrow> Inr inputs_embeds)"

section \<open>The sampler (\<^verbatim>\<open>top_p_sample\<close>)\<close>

text \<open>
  The sampler computes on NumPy arrays of floating-point numbers.  The model takes the
  float64 values as an arbitrary type \<open>'f\<close>, the float32 logits of the decoder as a type
  \<open>'l\<close>, an array as a list, and the operations of Python and NumPy on the values as
  parameters: \<open>f_gt_zero x\<close> is \<^verbatim>\<open>x > 0\<close>, \<open>f_max\<close> is Python's \<^verbatim>\<open>max\<close> of two
  floats, \<open>f_1e_6\<close> is the literal \<^verbatim>\<open>1e-6\<close>.  \<open>np_random_choice g a p\<close> is
  \<^verbatim>\<open>np.random.choice(a, p=p)\<close> in the state \<open>g\<close> of NumPy's global random generator:
  it returns the element chosen and the new state, or raises (\<^verbatim>\<open>ValueError\<close> when the
  probabilities contain NaN, among others).
\<close>

record ('l, 'f, 'rng) numpy =
  astype_float64 :: "'l \<Rightarrow> 'f"
  f_gt_zero :: "'f \<Rightarrow> bool"
  f_div :: "'f \<Rightarrow> 'f \<Rightarrow> 'f"
  f_mul :: "'f \<Rightarrow> 'f \<Rightarrow> 'f"
  f_sub :: "'f \<Rightarrow> 'f \<Rightarrow> 'f"
  f_neg :: "'f \<Rightarrow> 'f"
  f_exp :: "'f \<Rightarrow> 'f"
  f_max :: "'f \<Rightarrow> 'f \<Rightarrow> 'f"
  f_1e_6 :: 'f
  np_max :: "'f list \<Rightarrow> 'f"
  np_sum :: "'f list \<Rightarrow> 'f"
  np_argsort :: "'f list \<Rightarrow> nat list"
  np_cumsum :: "'f list \<Rightarrow> 'f list"
  np_searchsorted :: "'f list \<Rightarrow> 'f \<Rightarrow> nat"
  np_random_choice :: "'rng \<Rightarrow> nat list \<Rightarrow> 'f list \<Rightarrow> py_error + int \<times> 'rng"

text \<open>
  The position that \<^verbatim>\<open>a[i]\<close> reads or writes for a Python integer \<open>i\<close>: a negative
  index counts from the end, and an index out of range raises \<^verbatim>\<open>IndexError\<close>.
\<close>

definition np_index :: "'a list \<Rightarrow> int \<Rightarrow> py_error + nat" where
  "np_index a i =
     (if 0 \<le> i \<and> i < int (length a) then Inr (nat i)
      else if i < 0 \<and> - int (length a) \<le> i then Inr (nat (int (length a) + i))
      else Inl IndexError)"

text \<open>\<^verbatim>\<open>a[idx]\<close> for an array \<open>idx\<close> of positions.\<close>

definition take_at :: "'a list \<Rightarrow> nat list \<Rightarrow> py_error + 'a list" where
  "take_at a idx =
     (if list_all (\<lambda>i. i < length a) idx then Inr (map (\<lambda>i. a ! i) idx) else Inl IndexError)"

text \<open>
  The repetition penalty, \<^verbatim>\<open>for tid, cnt in seen.items()\<close>: \<open>seen\<close> is a dict, the
  list of its items in insertion order; \<open>logits\<close> is updated in place.
\<close>

fun penalise ::
  "('l, 'f, 'rng) numpy \<Rightarrow> 'f \<Rightarrow> (int \<times> nat) list \<Rightarrow> 'f list \<Rightarrow> py_error + 'f list"
where
  "penalise np repetition_penalty [] logits = Inr logits"
| "penalise np repetition_penalty ((tid, cnt) # items) logits =
     (if cnt > 0 then
        (case np_index logits tid of
           Inl e \<Rightarrow> Inl e
         | Inr j \<Rightarrow>
             penalise np repetition_penalty items
               (logits[j := (if f_gt_zero np (logits ! j)
                             then f_div np (logits ! j) repetition_penalty
                             else f_mul np (logits ! j) repetition_penalty)]))
      else penalise np repetition_penalty items logits)"

text \<open>
  \<^verbatim>\<open>np.max\<close> of an empty array raises \<^verbatim>\<open>ValueError\<close>.  The arguments follow the
  source; the state \<open>g\<close> of the random generator comes last.
\<close>

definition top_p_sample ::
  "('l, 'f, 'rng) numpy \<Rightarrow> 'l list \<Rightarrow> 'f \<Rightarrow> 'f \<Rightarrow> 'f \<Rightarrow> (int \<times> nat) list \<Rightarrow> 'rng \<Rightarrow>
   py_error + int \<times> 'rng"
where
  "top_p_sample np logits top_p temperature repetition_penalty seen g =
     (case penalise np repetition_penalty seen (map (astype_float64 np) logits) of
        Inl e \<Rightarrow> Inl e
      | Inr penalised \<Rightarrow>
          let t = f_max np temperature (f_1e_6 np);
              scaled = map (\<lambda>x. f_div np x t) penalised
          in if scaled = [] then Inl ValueError
             else
               let m = np_max np scaled;
                   exps = map (\<lambda>x. f_exp np (f_sub np x m)) scaled;
                   total = np_sum np exps;
                   probs = map (\<lambda>x. f_div np x total) exps;
                   idx = np_argsort np (map (f_neg np) probs)
               in case take_at probs idx of
                    Inl e \<Rightarrow> Inl e
                  | Inr sorted_probs \<Rightarrow>
                      let cumsum = np_cumsum np sorted_probs;
                          keep_n = np_searchsorted np cumsum top_p + 1;
                          keep_idx = take keep_n idx
                      in case take_at probs keep_idx of
                           Inl e \<Rightarrow> Inl e
                         | Inr kept \<Rightarrow>
                             let kept_total = np_sum np kept;
                                 keep_probs = map (\<lambda>x. f_div np x kept_total) kept
                             in np_random_choice np g keep_idx keep_probs)"

section \<open>Autoregressive generation (\<^verbatim>\<open>main\<close>, step 4)\<close>

text \<open>
  The surroundings of a run: the inference sessions, NumPy, and the sampling options of
  the command line.  \<open>dec_prefill\<close> is the first \<^verbatim>\<open>dec_sess.run\<close>, on the fused
  sequence with empty caches; \<open>dec_step\<close> is the run inside the loop, on one embedding and
  the previous outputs; both return the logits of the last position and the remaining
  outputs.
\<close>

record ('v, 'l, 'f, 'kv, 'rng) engine =
  embed :: "int \<Rightarrow> 'v"
  dec_prefill :: "'v list \<Rightarrow> 'l list \<times> 'kv"
  dec_step :: "'v \<Rightarrow> 'kv \<Rightarrow> 'l list \<times> 'kv"
  numpy_ops :: "('l, 'f, 'rng) numpy"
  arg_top_p :: 'f
  arg_temperature :: 'f
  arg_repetition_penalty :: 'f

record ('l, 'kv, 'rng) gen_state =
  generated :: "int list"
  seen :: "(int \<times> nat) list"
  last_logits :: "'l list"
  out :: 'kv
  rng :: 'rng
  dec_calls :: nat

text \<open>\<^verbatim>\<open>seen[nid] = seen.get(nid, 0) + 1\<close> on the item list of the dict.\<close>

fun dict_count :: "int \<Rightarrow> (int \<times> nat) list \<Rightarrow> (int \<times> nat) list" where
  "dict_count nid [] = [(nid, 0 + 1)]"
| "dict_count nid ((k, c) # items) =
     (if k = nid then (k, c + 1) # items else (k, c) # dict_count nid items)"

text \<open>The call of the sampler at line 406, in the state \<open>st\<close> of the loop.\<close>

definition sample_next ::
  "('v, 'l, 'f, 'kv, 'rng) engine \<Rightarrow> ('l, 'kv, 'rng) gen_state \<Rightarrow> py_error + int \<times> 'rng"
where
  "sample_next eng st =
     top_p_sample (numpy_ops eng) (last_logits st) (arg_top_p eng) (arg_temperature eng)
       (arg_repetition_penalty eng) (seen st) (rng st)"

text \<open>
  \<^verbatim>\<open>for step in range(args.max_new_tokens)\<close>, with the number of remaining iterations
  as first argument (\<^verbatim>\<open>--verbose\<close> only prints and is left out).  The sampler is called
  outside any \<^verbatim>\<open>try\<close>: when it raises, the loop is left with the exception, and the
  model keeps the state of the loop at that moment beside it.
\<close>

fun generate ::
  "('v, 'l, 'f, 'kv, 'rng) engine \<Rightarrow> int \<Rightarrow> nat \<Rightarrow> ('l, 'kv, 'rng) gen_state \<Rightarrow>
   py_error \<times> ('l, 'kv, 'rng) gen_state + ('l, 'kv, 'rng) gen_state"
where
  "generate eng eos_id 0 st = Inr st"
| "generate eng eos_id (Suc n) st =
     (case sample_next eng st of
        Inl e \<Rightarrow> Inl (e, st)
      | Inr (nid, g) \<Rightarrow>
          let st1 = st\<lparr>generated := generated st @ [nid],
                       seen := dict_count nid (seen st),
                       rng := g\<rparr>
          in if nid = eos_id then Inr st1
             else case dec_step eng (embed eng nid) (out st1) of
                    (lg, kv) \<Rightarrow>
                      generate eng eos_id n
                        (st1\<lparr>last_logits := lg, out := kv, dec_calls := dec_calls st1 + 1\<rparr>))"

text \<open>\<^verbatim>\<open>generated[:generated.index(eos_id)] if eos_id in generated else generated\<close>.\<close>

definition list_index :: "'a list \<Rightarrow> 'a \<Rightarrow> nat" where
  "list_index xs x = length (takeWhile (\<lambda>y. y \<noteq> x) xs)"

definition cut_at_eos :: "int list \<Rightarrow> int \<Rightarrow> int list" where
  "cut_at_eos gen eos_id =
     (if eos_id \<in> set gen then take (list_index gen eos_id) gen else gen)"

text \<open>
  What a run of \<^verbatim>\<open>main\<close> does from the search for the placeholder on: the lines it
  prints, the number of calls of the decoder session, and the ids it sampled; or the
  exception that ends it.
\<close>

datatype printed = Warn_no_image_placeholder | Text ustr

record run_result =
  stdout :: "printed list"
  decoder_calls :: nat
  sampled :: "int list"

definition run_generation ::
  "('v, 'l, 'f, 'kv, 'rng) engine \<Rightarrow> (nat list \<Rightarrow> ustr option) \<Rightarrow> (nat list \<Rightarrow> ustr) \<Rightarrow>
   tokenizer \<Rightarrow> 'v \<Rightarrow> int \<Rightarrow> int \<Rightarrow> int \<Rightarrow> 'rng \<Rightarrow> int list \<Rightarrow> 'v list \<Rightarrow> 'v list \<Rightarrow>
   py_error + run_result"
where
  "run_generation eng utf8_strict utf8_ignore tk zero image_token_id eos_id max_new_tokens
       rng0 input_ids text_emb vis_proj =
     (case image_pos_of input_ids image_token_id of
        None \<Rightarrow> Inr \<lparr>stdout = [Warn_no_image_placeholder], decoder_calls = 0, sampled = []\<rparr>
      | Some image_pos \<Rightarrow>
          (case fuse_embeddings zero text_emb vis_proj image_pos of
             Inl e \<Rightarrow> Inl e
           | Inr inputs_embeds \<Rightarrow>
               (case dec_prefill eng inputs_embeds of
                  (lg, kv) \<Rightarrow>
                    (case generate eng eos_id (nat max_new_tokens)
                            \<lparr>generated = [], seen = [], last_logits = lg, out = kv,
                             rng = rng0, dec_calls = 1\<rparr> of
                       Inl (e, st) \<Rightarrow> Inl e
                     | Inr st \<Rightarrow>
                         (case decode utf8_strict utf8_ignore tk
                                 (cut_at_eos (generated st) eos_id) of
                            Inl e \<Rightarrow> Inl e
                          | Inr text \<Rightarrow>
                              Inr \<lparr>stdout = [Text text], decoder_calls = dec_calls st,
                                   sampled = generated st\<rparr>)))))"

text \<open>
  Small surroundings for concrete runs: vectors, floats and caches are numbers, the
  decoder returns nine equal logits, the random state counts the draws, and the random
  choice is the id \<open>7\<close> at the first draw and the id \<open>8\<close> afterwards.
\<close>

definition demo_numpy :: "(nat, nat, nat) numpy" where
  "demo_numpy =
     \<lparr>astype_float64 = (\<lambda>x. x),
      f_gt_zero = (\<lambda>x. 0 < x),
      f_div = (\<lambda>x y. x div y),
      f_mul = (\<lambda>x y. x * y),
      f_sub = (\<lambda>x y. x - y),
      f_neg = (\<lambda>x. x),
      f_exp = (\<lambda>x. 1),
      f_max = max,
      f_1e_6 = 1,
      np_max = (\<lambda>xs. fold max xs 0),
      np_sum = sum_list,
      np_argsort = (\<lambda>xs. [0..<length xs]),
      np_cumsum = (\<lambda>xs. xs),
      np_searchsorted = (\<lambda>xs v. 0),
      np_random_choice = (\<lambda>g a p. Inr (if g = 0 then 7 else 8, g + 1))\<rparr>"

definition demo_engine :: "(nat, nat, nat, nat, nat) engine" where
  "demo_engine =
     \<lparr>embed = (\<lambda>nid. nat nid),
      dec_prefill = (\<lambda>embeds. ([2, 2, 2, 2, 2, 2, 2, 2, 2], 0)),
      dec_step = (\<lambda>tok_emb kv. ([2, 2, 2, 2, 2, 2, 2, 2, 2], kv + 1)),
      numpy_ops = demo_numpy,
      arg_top_p = 1,
      arg_temperature = 1,
      arg_repetition_penalty = 1\<rparr>"

section \<open>The byte-to-unicode table is a bijection\<close>

lemma dict_of_Some_iff:
  "distinct (map fst kvs) \<Longrightarrow> dict_of kvs k = Some v \<longleftrightarrow> (k, v) \<in> set kvs"
  by (simp add: dict_of_def rev_map [symmetric])

lemma fold_b2u_skip:
  "set xs \<subseteq> set bs \<Longrightarrow> fold b2u_step xs (bs, cs, n) = (bs, cs, n)"
  by (induction xs) auto

lemma fold_b2u_add:
  "distinct xs \<Longrightarrow> set xs \<inter> set bs = {} \<Longrightarrow>
   fold b2u_step xs (bs, cs, n) =
     (bs @ xs, cs @ map (\<lambda>i. 256 + n + i) [0..<length xs], n + length xs)"
proof (induction xs arbitrary: bs cs n)
  case Nil
  then show ?case by simp
next
  case (Cons x xs)
  have "map (\<lambda>i. 256 + n + i) [0..<Suc (length xs)] =
        (256 + n) # map (\<lambda>i. 256 + (n + 1) + i) [0..<length xs]"
    by (simp add: upt_conv_Cons map_Suc_upt [symmetric] del: upt_Suc)
  with Cons show ?case by auto
qed

lemma upt_split: "i \<le> j \<Longrightarrow> j \<le> k \<Longrightarrow> [i..<k] = [i..<j] @ [j..<k]"
  by (metis le_Suc_ex upt_add_eq_append)

lemma range_256_split:
  "[0..<256] = [0..<33] @ [33..<127] @ [127..<161] @ [161..<173] @ [173] @ [174..<256]"
proof -
  have "[0..<256] = [0..<33] @ [33..<256]" by (rule upt_split) simp_all
  also have "[33..<256] = [33..<127] @ [127..<256]" by (rule upt_split) simp_all
  also have "[127..<256] = [127..<161] @ [161..<256]" by (rule upt_split) simp_all
  also have "[161..<256] = [161..<173] @ [173..<256]" by (rule upt_split) simp_all
  also have "[173..<256] = [173] @ [174..<256]"
    by (simp add: upt_conv_Cons [of 173] del: upt_rec_numeral)
  finally show ?thesis by simp
qed

lemma set_printable: "set printable_bytes = {33..<127} \<union> {161..<173} \<union> {174..<256}"
  by (simp add: printable_bytes_def Un_assoc del: upt_rec_numeral)

lemma fold_b2u_result:
  "fold b2u_step [0..<256] (printable_bytes, printable_bytes, 0) =
     (printable_bytes @ other_bytes,
      printable_bytes @ map (\<lambda>i. 256 + i) [0..<68], 68)"
proof -
  let ?P = printable_bytes
  have d1: "set [0..<33] \<inter> set ?P = {}"
    by (auto simp: set_printable simp del: upt_rec_numeral)
  have s1: "fold b2u_step [0..<33] (?P, ?P, 0) =
      (?P @ [0..<33], ?P @ map (\<lambda>i. 256 + i) [0..<33], 33)"
    using fold_b2u_add [OF _ d1, of ?P 0] by (simp del: upt_rec_numeral)
  have s2: "fold b2u_step [33..<127] (?P @ [0..<33], cs, n) = (?P @ [0..<33], cs, n)" for cs n
    by (rule fold_b2u_skip) (auto simp: set_printable simp del: upt_rec_numeral)
  have d3: "set [127..<161] \<inter> set (?P @ [0..<33]) = {}"
    by (auto simp: set_printable simp del: upt_rec_numeral)
  have m3: "map (\<lambda>i. 256 + 33 + i) [0..<34] = map (\<lambda>i. 256 + i) [33..<67]"
    by (rule nth_equalityI) (simp_all del: upt_rec_numeral)
  have s3: "fold b2u_step [127..<161] (?P @ [0..<33], cs, 33) =
      (?P @ [0..<33] @ [127..<161], cs @ map (\<lambda>i. 256 + i) [33..<67], 67)" for cs
    using fold_b2u_add [OF _ d3, of cs 33] m3 by (simp del: upt_rec_numeral)
  have s4: "fold b2u_step [161..<173] (?P @ [0..<33] @ [127..<161], cs, n) =
      (?P @ [0..<33] @ [127..<161], cs, n)" for cs n
    by (rule fold_b2u_skip) (auto simp: set_printable simp del: upt_rec_numeral)
  have d5: "173 \<notin> set (?P @ [0..<33] @ [127..<161])"
    by (auto simp: set_printable simp del: upt_rec_numeral)
  have s5: "fold b2u_step [173] (?P @ [0..<33] @ [127..<161], cs, 67) =
      (?P @ other_bytes, cs @ [323], 68)" for cs
    using d5 by (simp add: other_bytes_def del: upt_rec_numeral)
  have s6: "fold b2u_step [174..<256] (?P @ other_bytes, cs, n) = (?P @ other_bytes, cs, n)"
    for cs n
    by (rule fold_b2u_skip) (auto simp: set_printable simp del: upt_rec_numeral)
  have cs: "map (\<lambda>i. 256 + i) [0..<33] @ map (\<lambda>i. 256 + i) [33..<67] @ [323] =
      map (\<lambda>i. 256 + i) [0..<68]"
  proof -
    have "[0..<68] = [0..<33] @ [33..<67] @ [67]"
      using upt_split [of 0 33 68] upt_split [of 33 67 68]
      by (simp add: upt_conv_Cons [of 67] del: upt_rec_numeral)
    then show ?thesis by (simp del: upt_rec_numeral)
  qed
  show ?thesis
    unfolding range_256_split fold_append comp_def s1 s2 s3 s4 s5 s6
    using cs by (simp del: upt_rec_numeral)
qed

lemma build_bytes_to_unicode_eq:
  "build_bytes_to_unicode =
     zip (printable_bytes @ other_bytes) (printable_bytes @ map (\<lambda>i. 256 + i) [0..<68])"
  by (simp add: build_bytes_to_unicode_def fold_b2u_result)

lemma length_printable: "length printable_bytes = 188"
  by (simp add: printable_bytes_def del: upt_rec_numeral)

lemma length_other: "length other_bytes = 68"
  by (simp add: other_bytes_def del: upt_rec_numeral)

lemma set_all_bytes: "set (printable_bytes @ other_bytes) = {0..<256}"
  by (auto simp: set_printable other_bytes_def simp del: upt_rec_numeral)

lemma distinct_printable: "distinct printable_bytes"
  by (auto simp: printable_bytes_def simp del: upt_rec_numeral)

lemma distinct_all_bytes: "distinct (printable_bytes @ other_bytes)"
  using distinct_printable
  by (auto simp: set_printable other_bytes_def simp del: upt_rec_numeral)

lemma distinct_all_chars: "distinct (printable_bytes @ map (\<lambda>i. 256 + i) [0..<68])"
  using distinct_printable
  by (auto simp: set_printable distinct_map inj_on_def simp del: upt_rec_numeral)

lemma b2u_keys: "map fst build_bytes_to_unicode = printable_bytes @ other_bytes"
  by (simp add: build_bytes_to_unicode_eq length_printable length_other del: upt_rec_numeral)

lemma b2u_vals:
  "map snd build_bytes_to_unicode = printable_bytes @ map (\<lambda>i. 256 + i) [0..<68]"
  by (simp add: build_bytes_to_unicode_eq length_printable length_other del: upt_rec_numeral)

lemma byte_encoder_iff:
  "byte_encoder b = Some c \<longleftrightarrow> (b, c) \<in> set build_bytes_to_unicode"
  unfolding byte_encoder_def
  by (rule dict_of_Some_iff) (simp only: b2u_keys distinct_all_bytes)

lemma byte_decoder_iff:
  "byte_decoder c = Some b \<longleftrightarrow> (b, c) \<in> set build_bytes_to_unicode"
proof -
  have "map fst (map (\<lambda>(k, v). (v, k)) build_bytes_to_unicode) = map snd build_bytes_to_unicode"
    by (simp add: case_prod_unfold comp_def)
  then have "distinct (map fst (map (\<lambda>(k, v). (v, k)) build_bytes_to_unicode))"
    by (simp only: b2u_vals distinct_all_chars)
  then have "byte_decoder c = Some b \<longleftrightarrow>
      (c, b) \<in> set (map (\<lambda>(k, v). (v, k)) build_bytes_to_unicode)"
    unfolding byte_decoder_def by (rule dict_of_Some_iff)
  then show ?thesis by auto
qed

lemma dom_byte_encoder: "dom byte_encoder = {0..<256}"
proof -
  have "dom byte_encoder = fst ` set build_bytes_to_unicode"
    by (force simp: dom_def byte_encoder_iff image_iff)
  also have "\<dots> = set (map fst build_bytes_to_unicode)" by simp
  also have "\<dots> = {0..<256}" by (simp only: b2u_keys set_all_bytes)
  finally show ?thesis .
qed

lemma byte_decoder_range: "byte_decoder c = Some b \<Longrightarrow> b < 256"
proof -
  assume "byte_decoder c = Some b"
  then have "byte_encoder b = Some c" by (simp add: byte_encoder_iff byte_decoder_iff)
  then have "b \<in> dom byte_encoder" by auto
  then show ?thesis by (simp add: dom_byte_encoder)
qed

lemma byte_encoder_printable: "b \<in> set printable_bytes \<Longrightarrow> byte_encoder b = Some b"
  unfolding byte_encoder_iff build_bytes_to_unicode_eq
  by (simp add: length_printable zip_same del: upt_rec_numeral)

lemma byte_encoder_ascii: "33 \<le> b \<Longrightarrow> b < 127 \<Longrightarrow> byte_encoder b = Some b"
  by (rule byte_encoder_printable) (simp add: set_printable del: upt_rec_numeral)

text \<open>
  Claim C2.  The encoder is defined on exactly the 256 byte values and maps distinct bytes
  to distinct characters; decoding the character of a byte gives the byte back; and every
  character in the image of the encoder decodes to a byte that encodes to it.
\<close>

theorem byte_codec_bijection:
  "dom byte_encoder = {0..<256} \<and>
   inj_on byte_encoder {0..<256} \<and>
   (\<forall>b<256. \<exists>c. byte_encoder b = Some c \<and> byte_decoder c = Some b) \<and>
   (\<forall>c\<in>ran byte_encoder. \<exists>b<256. byte_decoder c = Some b \<and> byte_encoder b = Some c)"
proof (intro conjI)
  show "dom byte_encoder = {0..<256}"
    by (rule dom_byte_encoder)
  have enc: "\<exists>c. byte_encoder b = Some c" if "b < 256" for b
    using that dom_byte_encoder by (auto simp: dom_def)
  have flip: "byte_encoder b = Some c \<longleftrightarrow> byte_decoder c = Some b" for b c
    by (simp add: byte_encoder_iff byte_decoder_iff)
  show "inj_on byte_encoder {0..<256}"
  proof (rule inj_onI)
    fix x y
    assume "x \<in> {0..<256}" and eq: "byte_encoder x = byte_encoder y"
    then obtain c where c: "byte_encoder x = Some c"
      using enc [of x] by auto
    with eq have "byte_encoder y = Some c" by simp
    with c have "byte_decoder c = Some x" "byte_decoder c = Some y"
      by (simp_all add: flip)
    then show "x = y" by simp
  qed
  show "\<forall>b<256. \<exists>c. byte_encoder b = Some c \<and> byte_decoder c = Some b"
    using enc flip by blast
  show "\<forall>c\<in>ran byte_encoder. \<exists>b<256. byte_decoder c = Some b \<and> byte_encoder b = Some c"
  proof
    fix c
    assume "c \<in> ran byte_encoder"
    then obtain b where b: "byte_encoder b = Some c"
      by (auto simp: ran_def)
    then have "b < 256"
      using dom_byte_encoder by (auto simp: dom_def)
    with b show "\<exists>b<256. byte_decoder c = Some b \<and> byte_encoder b = Some c"
      using flip by blast
  qed
qed

theorem byte_codec_bijection_witness:
  "(65::nat) < 256 \<and> byte_encoder 65 = Some 65 \<and> byte_decoder 65 = Some 65 \<and>
   65 \<in> ran byte_encoder"
proof -
  have e: "byte_encoder 65 = Some 65"
    by (rule byte_encoder_ascii) simp_all
  from byte_codec_bijection have
    "\<forall>b<256. \<exists>c. byte_encoder b = Some c \<and> byte_decoder c = Some b" by blast
  then have "\<exists>c. byte_encoder 65 = Some c \<and> byte_decoder c = Some 65" by simp
  with e have "byte_decoder 65 = Some 65" by auto
  with e show ?thesis by (auto simp: ran_def)
qed

lemma byte_codec_table_total: "b < 256 \<Longrightarrow> \<exists>c. byte_encoder b = Some c"
  using dom_byte_encoder by (auto simp: dom_def)

section \<open>Embedding fusion\<close>

lemma fuse_loop_append:
  "fuse_loop te vis p (xs @ ys) st =
     (case fuse_loop te vis p xs st of Inl e \<Rightarrow> Inl e | Inr st' \<Rightarrow> fuse_loop te vis p ys st')"
  by (induction xs arbitrary: st) (auto split: sum.splits)

lemma fuse_loop_append_Inr:
  "fuse_loop te vis p xs st = Inr st' \<Longrightarrow>
   fuse_loop te vis p (xs @ ys) st = fuse_loop te vis p ys st'"
  by (simp add: fuse_loop_append)

lemma fuse_loop_copy:
  assumes "a \<le> b" and "b \<le> length te" and "p \<notin> {a..<b}"
    and "length pre = w" and "b - a \<le> m"
  shows "fuse_loop te vis p [a..<b] (w, pre @ replicate m z) =
           Inr (w + (b - a), pre @ take (b - a) (drop a te) @ replicate (m - (b - a)) z)"
  using assms
proof (induction b)
  case 0
  then show ?case by simp
next
  case (Suc b)
  show ?case
  proof (cases "a = Suc b")
    case True
    then show ?thesis by simp
  next
    case False
    with Suc.prems have ab: "a \<le> b" and bl: "b < length te" and np: "p \<notin> {a..<b}"
      and bp: "b \<noteq> p" and m: "Suc (b - a) \<le> m"
      by auto
    let ?X = "pre @ take (b - a) (drop a te)"
    have lenX: "length ?X = w + (b - a)"
      using Suc.prems(4) ab bl by simp
    have IH: "fuse_loop te vis p [a..<b] (w, pre @ replicate m z) =
        Inr (w + (b - a), ?X @ replicate (m - (b - a)) z)"
      using Suc.IH [OF ab _ np Suc.prems(4)] bl m by simp
    obtain m' where m': "m - (b - a) = Suc m'"
      using m by (metis Suc_diff_le diff_Suc_Suc)
    have upd: "(?X @ replicate (Suc m') z)[w + (b - a) := te ! b] = ?X @ te ! b # replicate m' z"
      using lenX by (metis list_update_length replicate_Suc)
    have tk: "take (Suc b - a) (drop a te) = take (b - a) (drop a te) @ [te ! b]"
      using ab bl by (simp add: Suc_diff_le take_Suc_conv_app_nth)
    have m'': "m - (Suc b - a) = m'"
      using m' ab by simp
    have "fuse_loop te vis p [a..<Suc b] (w, pre @ replicate m z) =
        fuse_loop te vis p [b] (w + (b - a), ?X @ replicate (Suc m') z)"
      using ab IH m' by (simp add: fuse_loop_append)
    also have "\<dots> = Inr (w + (b - a) + 1, ?X @ te ! b # replicate m' z)"
      using bp lenX upd by simp
    also have "\<dots> = Inr (w + (Suc b - a), pre @ take (Suc b - a) (drop a te) @
        replicate (m - (Suc b - a)) z)"
      unfolding tk m'' using ab by (simp add: Suc_diff_le)
    finally show ?thesis .
  qed
qed

lemma set_rows_fit:
  "length pre = w \<Longrightarrow>
   set_rows (pre @ replicate (length vis + m) z) w vis = Inr (pre @ vis @ replicate m z)"
  by (simp add: set_rows_def Let_def)

lemma fuse_embeddings_closed:
  assumes "p < length te"
  shows "fuse_embeddings z te vis p = Inr (take p te @ vis @ drop (Suc p) te)"
proof -
  let ?L = "length te" and ?T = "length vis"
  let ?n = "?L + ?T - 1"
  have split: "[0..<?L] = [0..<p] @ [p] @ [Suc p..<?L]"
    using assms upt_split [of 0 p "length te"] by (simp add: upt_conv_Cons)
  have A: "fuse_loop te vis p [0..<p] (0, replicate ?n z) =
      Inr (p, take p te @ replicate (?n - p) z)"
    using fuse_loop_copy [of 0 p te p "[]" 0 ?n vis z] assms by simp
  have n: "?n - p = ?T + (?L - Suc p)"
    using assms by simp
  have B: "fuse_loop te vis p [p] (p, take p te @ replicate (?n - p) z) =
      Inr (p + ?T, (take p te @ vis) @ replicate (?L - Suc p) z)"
    unfolding n using assms set_rows_fit [of "take p te" p vis "?L - Suc p" z] by simp
  have C: "fuse_loop te vis p [Suc p..<?L] (p + ?T, (take p te @ vis) @ replicate (?L - Suc p) z) =
      Inr (p + ?T + (?L - Suc p), (take p te @ vis) @ take (?L - Suc p) (drop (Suc p) te) @
        replicate 0 z)"
    using fuse_loop_copy [of "Suc p" ?L te p "take p te @ vis" "p + ?T" "?L - Suc p" vis z] assms
    by simp
  have AB: "fuse_loop te vis p ([0..<p] @ [p]) (0, replicate ?n z) =
      Inr (p + ?T, (take p te @ vis) @ replicate (?L - Suc p) z)"
    using fuse_loop_append_Inr [OF A, of "[p]"] B by (simp only:)
  have "fuse_loop te vis p (([0..<p] @ [p]) @ [Suc p..<?L]) (0, replicate ?n z) =
      Inr (p + ?T + (?L - Suc p), (take p te @ vis) @ take (?L - Suc p) (drop (Suc p) te) @
        replicate 0 z)"
    using fuse_loop_append_Inr [OF AB, of "[Suc p..<?L]"] C by (simp only:)
  then have "fuse_loop te vis p [0..<?L] (0, replicate ?n z) =
      Inr (p + ?T + (?L - Suc p), take p te @ vis @ drop (Suc p) te)"
    using split by simp
  moreover have "te \<noteq> []"
    using assms by auto
  ultimately show ?thesis
    by (simp add: fuse_embeddings_def Let_def)
qed

lemma image_pos_arr_unique:
  assumes "p < length ids" and "ids ! p = t" and "\<forall>i<length ids. i \<noteq> p \<longrightarrow> ids ! i \<noteq> t"
  shows "image_pos_arr ids t = [p]"
proof -
  have split: "[0..<length ids] = [0..<p] @ [p] @ [Suc p..<length ids]"
    using assms(1) upt_split [of 0 p "length ids"] by (simp add: upt_conv_Cons)
  have "filter (\<lambda>i. ids ! i = t) [0..<p] = []"
    using assms by (auto simp: filter_empty_conv)
  moreover have "filter (\<lambda>i. ids ! i = t) [Suc p..<length ids] = []"
    using assms by (auto simp: filter_empty_conv)
  ultimately show ?thesis
    unfolding image_pos_arr_def split using assms(2) by simp
qed


text \<open>
  Claim C3.  If the placeholder id occurs in the \<open>L\<close> prompt ids at position \<open>p\<close> and
  nowhere else, fusion finds \<open>p\<close> and returns a sequence of length \<open>L - 1 + T\<close>: positions
  \<open>0..p-1\<close> are the text vectors \<open>0..p-1\<close>, positions \<open>p..p+T-1\<close> are the \<open>T\<close> vision
  vectors in order, and position \<open>i - 1 + T\<close> is the text vector \<open>i\<close> for \<open>p < i < L\<close>.
\<close>

theorem embedding_fusion:
  assumes "length input_ids = length text_emb"
    and "p < length text_emb"
    and "input_ids ! p = image_token_id"
    and "\<forall>i<length input_ids. i \<noteq> p \<longrightarrow> input_ids ! i \<noteq> image_token_id"
  shows "\<exists>fused.
      image_pos_of input_ids image_token_id = Some p \<and>
      fuse_embeddings zero text_emb vis_proj p = Inr fused \<and>
      length fused = length text_emb - 1 + length vis_proj \<and>
      (\<forall>i<p. fused ! i = text_emb ! i) \<and>
      (\<forall>j<length vis_proj. fused ! (p + j) = vis_proj ! j) \<and>
      (\<forall>i. p < i \<and> i < length text_emb \<longrightarrow> fused ! (i - 1 + length vis_proj) = text_emb ! i)"
proof -
  let ?fused = "take p text_emb @ vis_proj @ drop (Suc p) text_emb"
  have pos: "image_pos_of input_ids image_token_id = Some p"
    using image_pos_arr_unique [of p input_ids image_token_id] assms
    by (simp add: image_pos_of_def)
  have fus: "fuse_embeddings zero text_emb vis_proj p = Inr ?fused"
    using assms(2) by (rule fuse_embeddings_closed)
  have len: "length ?fused = length text_emb - 1 + length vis_proj"
    using assms(2) by simp
  have before: "\<forall>i<p. ?fused ! i = text_emb ! i"
    using assms(2) by (simp add: nth_append)
  have vision: "\<forall>j<length vis_proj. ?fused ! (p + j) = vis_proj ! j"
    using assms(2) by (simp add: nth_append)
  have after: "\<forall>i. p < i \<and> i < length text_emb \<longrightarrow>
      ?fused ! (i - 1 + length vis_proj) = text_emb ! i"
  proof (intro allI impI)
    fix i
    assume i: "p < i \<and> i < length text_emb"
    then have "i - 1 + length vis_proj = p + length vis_proj + (i - Suc p)"
      by simp
    then have "?fused ! (i - 1 + length vis_proj) = drop (Suc p) text_emb ! (i - Suc p)"
      using assms(2) by (simp add: nth_append)
    also have "\<dots> = text_emb ! i"
      using i by simp
    finally show "?fused ! (i - 1 + length vis_proj) = text_emb ! i" .
  qed
  from pos fus len before vision after show ?thesis
    by blast
qed

theorem embedding_fusion_witness:
  "image_pos_of [1, 2, 9, 3, 4] 9 = Some 2 \<and>
   fuse_embeddings (0::nat) [10, 11, 12, 13, 14] [20, 21, 22] 2 =
     Inr [10, 11, 20, 21, 22, 13, 14]"
proof -
  have h1: "length [1, 2, 9, 3, 4 :: int] = length [10, 11, 12, 13, 14 :: nat]"
    by simp
  have h2: "2 < length [10, 11, 12, 13, 14 :: nat]"
    by simp
  have h3: "[1, 2, 9, 3, 4 :: int] ! 2 = 9"
    by simp
  have h4: "\<forall>i<length [1, 2, 9, 3, 4 :: int]. i \<noteq> 2 \<longrightarrow> [1, 2, 9, 3, 4 :: int] ! i \<noteq> 9"
    by (auto simp: nth_Cons' )
  have "image_pos_of [1, 2, 9, 3, 4] 9 = Some 2"
    using embedding_fusion [OF h1 h2 h3 h4] by blast
  moreover have "fuse_embeddings (0::nat) [10, 11, 12, 13, 14] [20, 21, 22] 2 =
      Inr [10, 11, 20, 21, 22, 13, 14]"
    by (simp add: fuse_embeddings_def set_rows_def)
  ultimately show ?thesis by simp
qed

section \<open>The BPE merge\<close>

lemma find_symbol_Some:
  "find_symbol w f i = Some j \<Longrightarrow>
     i \<le> j \<and> j < length w \<and> w ! j = f \<and> (\<forall>k. i \<le> k \<and> k < j \<longrightarrow> w ! k \<noteq> f)"
proof (induction w f i rule: find_symbol.induct)
  case (1 word first j')
  show ?case
  proof (cases "j' < length word \<and> word ! j' \<noteq> first")
    case True
    with "1.prems" have "find_symbol word first (j' + 1) = Some j"
      by (subst (asm) find_symbol.simps) simp
    with "1.IH" True have IH: "j' + 1 \<le> j \<and> j < length word \<and> word ! j = first \<and>
        (\<forall>k. j' + 1 \<le> k \<and> k < j \<longrightarrow> word ! k \<noteq> first)"
      by simp
    have "word ! k \<noteq> first" if "j' \<le> k \<and> k < j" for k
      using that IH True by (cases "k = j'") auto
    with IH show ?thesis by auto
  next
    case False
    with "1.prems" show ?thesis
      by (subst (asm) find_symbol.simps) (auto split: if_splits)
  qed
qed

lemma find_symbol_None:
  "find_symbol w f i = None \<Longrightarrow> i \<le> k \<Longrightarrow> k < length w \<Longrightarrow> w ! k \<noteq> f"
proof (induction w f i rule: find_symbol.induct)
  case (1 word first j)
  from "1.prems"(1) have a: "j < length word \<longrightarrow> word ! j \<noteq> first"
    and b: "j < length word \<longrightarrow> find_symbol word first (j + 1) = None"
    by (subst (asm) find_symbol.simps, auto split: if_splits)+
  show ?case
  proof (cases "k = j")
    case True
    with a "1.prems" show ?thesis by simp
  next
    case False
    with "1.prems" have "j + 1 \<le> k" "j < length word" by auto
    with "1.IH" a b "1.prems" show ?thesis by simp
  qed
qed

lemma replace_pairs_skip:
  "x \<noteq> f \<Longrightarrow> replace_pairs f s (x # r) = x # replace_pairs f s r"
  by (cases r) auto

lemma replace_pairs_prefix:
  "f \<notin> set xs \<Longrightarrow> replace_pairs f s (xs @ ys) = xs @ replace_pairs f s ys"
  by (induction xs) (auto simp: replace_pairs_skip)

lemma replace_pairs_no_first:
  "f \<notin> set xs \<Longrightarrow> replace_pairs f s xs = xs"
  using replace_pairs_prefix [of f xs s "[]"] by simp

lemma replace_pairs_first_other:
  "r = [] \<or> hd r \<noteq> s \<Longrightarrow> replace_pairs f s (x # r) = x # replace_pairs f s r"
  by (cases r) auto

lemma merge_loop_eq:
  "i \<le> length w \<Longrightarrow> merge_loop f s w i acc = acc @ replace_pairs f s (drop i w)"
proof (induction f s w i acc rule: merge_loop.induct)
  case (1 first second word i new_word)
  show ?case
  proof (cases "i < length word")
    case False
    with "1.prems" show ?thesis
      by (subst merge_loop.simps) simp
  next
    case True
    show ?thesis
    proof (cases "find_symbol word first i")
      case None
      have "first \<notin> set (drop i word)"
        using find_symbol_None [OF None] by (auto simp: in_set_conv_nth)
      then show ?thesis
        using True None by (subst merge_loop.simps) (simp add: replace_pairs_no_first)
    next
      case (Some j)
      note fs = find_symbol_Some [OF Some]
      let ?pre = "take (j - i) (drop i word)"
      have pre: "first \<notin> set ?pre"
      proof
        assume "first \<in> set ?pre"
        then obtain k where "k < length ?pre" "?pre ! k = first"
          by (auto simp: in_set_conv_nth)
        then have "word ! (i + k) = first" "i \<le> i + k" "i + k < j"
          using fs by auto
        with fs show False by blast
      qed
      have split: "drop i word = ?pre @ drop j word"
        using fs by (metis add_diff_inverse_nat drop_drop append_take_drop_id not_less add.commute)
      have rp: "replace_pairs first second (drop i word) =
          ?pre @ replace_pairs first second (drop j word)"
        using replace_pairs_prefix [OF pre, of second "drop j word"] split by simp
      have dj: "drop j word = first # drop (Suc j) word"
        using fs by (metis Cons_nth_drop_Suc)
      show ?thesis
      proof (cases "j < length word - 1 \<and> word ! j = first \<and> word ! (j + 1) = second")
        case True2: True
        then have "drop (Suc j) word = second # drop (j + 2) word"
          by (metis Cons_nth_drop_Suc Suc_eq_plus1 add_2_eq_Suc' less_diff_conv)
        with dj have "replace_pairs first second (drop j word) =
            (first @ second) # replace_pairs first second (drop (j + 2) word)"
          by simp
        moreover have "merge_loop first second word i new_word =
            merge_loop first second word (j + 2) (new_word @ ?pre @ [first @ second])"
          using True Some True2 by (subst merge_loop.simps) simp
        moreover have "merge_loop first second word (j + 2) (new_word @ ?pre @ [first @ second]) =
            (new_word @ ?pre @ [first @ second]) @ replace_pairs first second (drop (j + 2) word)"
          using "1.IH"(1) [OF True Some True2] True2 by auto
        ultimately show ?thesis
          by (simp add: rp)
      next
        case False2: False
        have "drop (Suc j) word = [] \<or> hd (drop (Suc j) word) \<noteq> second"
          using False2 fs by (cases "Suc j < length word") (auto simp: hd_drop_conv_nth)
        with dj have "replace_pairs first second (drop j word) =
            first # replace_pairs first second (drop (j + 1) word)"
          by (simp add: replace_pairs_first_other)
        moreover have "merge_loop first second word i new_word =
            merge_loop first second word (j + 1) (new_word @ ?pre @ [word ! j])"
          using True Some False2 by (subst merge_loop.simps) auto
        moreover have "merge_loop first second word (j + 1) (new_word @ ?pre @ [word ! j]) =
            (new_word @ ?pre @ [word ! j]) @ replace_pairs first second (drop (j + 1) word)"
          using "1.IH"(2) [OF True Some False2] fs by simp
        ultimately show ?thesis
          using fs by (simp add: rp)
      qed
    qed
  qed
qed

lemma merge_loop_replace_pairs: "merge_loop f s w 0 [] = replace_pairs f s w"
  by (simp add: merge_loop_eq)

lemma get_pairs_loop_set:
  "set (get_pairs_loop prev w acc) =
     set acc \<union> set (zip (case prev of None \<Rightarrow> w | Some p \<Rightarrow> p # w)
                        (case prev of None \<Rightarrow> tl w | Some p \<Rightarrow> w))"
  by (induction w arbitrary: prev acc) (auto split: option.splits)

lemma set_get_pairs: "set (get_pairs w) = adjacent w"
  by (simp add: get_pairs_def adjacent_def get_pairs_loop_set)

lemma get_pairs_loop_distinct:
  "distinct acc \<Longrightarrow> distinct (get_pairs_loop prev w acc)"
  by (induction w arbitrary: prev acc) (auto split: option.splits)

lemma distinct_get_pairs: "distinct (get_pairs w)"
  by (simp add: get_pairs_def get_pairs_loop_distinct)

lemma get_pairs_Nil_iff: "get_pairs w = [] \<longleftrightarrow> length w \<le> 1"
proof -
  have "get_pairs w = [] \<longleftrightarrow> set (get_pairs w) = {}"
    by simp
  also have "\<dots> \<longleftrightarrow> set (zip w (tl w)) = {}"
    by (simp only: set_get_pairs adjacent_def)
  also have "\<dots> \<longleftrightarrow> length w \<le> 1"
    by (cases w; cases "tl w") auto
  finally show ?thesis .
qed

lemma adjacent_iff:
  "(a, b) \<in> adjacent w \<longleftrightarrow> (\<exists>k. Suc k < length w \<and> w ! k = a \<and> w ! Suc k = b)"
proof
  assume "(a, b) \<in> adjacent w"
  then obtain n where "w ! n = a" "tl w ! n = b" "n < length w" "n < length (tl w)"
    by (auto simp: adjacent_def in_set_zip)
  then have "Suc n < length w \<and> w ! n = a \<and> w ! Suc n = b"
    by (auto simp: nth_tl)
  then show "\<exists>k. Suc k < length w \<and> w ! k = a \<and> w ! Suc k = b" ..
next
  assume "\<exists>k. Suc k < length w \<and> w ! k = a \<and> w ! Suc k = b"
  then obtain k where "Suc k < length w" "w ! k = a" "w ! Suc k = b"
    by blast
  then show "(a, b) \<in> adjacent w"
    unfolding adjacent_def in_set_zip by (intro exI [of _ k]) (simp add: nth_tl)
qed

lemma min_by_in: "min_by key b xs \<in> set (b # xs)"
  by (induction xs arbitrary: b) auto

lemma min_by_le: "x \<in> set (b # xs) \<Longrightarrow> key (min_by key b xs) \<le> key x"
proof (induction xs arbitrary: b x)
  case Nil
  then show ?case by simp
next
  case (Cons y ys)
  let ?b = "if key y < key b then y else b"
  have le: "key (min_by key ?b ys) \<le> key ?b"
    using Cons.IH [where b = ?b and x = ?b] by simp
  show ?case
  proof (cases "x \<in> set ys")
    case True
    then show ?thesis
      using Cons.IH [where b = ?b and x = x] by simp
  next
    case False
    with Cons.prems have "x = b \<or> x = y" by auto
    then have "key ?b \<le> key x" by auto
    with le show ?thesis by simp
  qed
qed

lemma py_min_Inr:
  assumes "xs \<noteq> []"
  shows "\<exists>m. py_min key xs = Inr m \<and> m \<in> set xs \<and> (\<forall>x\<in>set xs. key m \<le> key x)"
proof (cases xs)
  case Nil
  with assms show ?thesis by simp
next
  case (Cons a list)
  then have "py_min key xs = Inr (min_by key a list)"
    by (simp add: py_min_def)
  moreover have "min_by key a list \<in> set xs"
    using min_by_in [of key a list] Cons by simp
  moreover have "\<forall>x\<in>set xs. key (min_by key a list) \<le> key x"
    using min_by_le [of _ a list key] Cons by simp
  ultimately show ?thesis by blast
qed

lemma py_min_in: "py_min key xs = Inr m \<Longrightarrow> m \<in> set xs"
  using min_by_in [of key] by (auto simp: py_min_def split: list.splits)

lemma replace_pairs_length_le: "length (replace_pairs f s w) \<le> length w"
  by (induction f s w rule: replace_pairs.induct) auto

lemma replace_pairs_length_less:
  "(f, s) \<in> adjacent w \<Longrightarrow> length (replace_pairs f s w) < length w"
proof (induction f s w rule: replace_pairs.induct)
  case (3 first second x y rest)
  then show ?case
    using replace_pairs_length_le [of first second rest]
    by (auto simp: adjacent_def less_Suc_eq_le)
qed (auto simp: adjacent_def)

lemma replace_pairs_concat: "concat (replace_pairs f s w) = concat w"
  by (induction f s w rule: replace_pairs.induct) auto

lemma replace_pairs_Nil_iff: "replace_pairs f s w = [] \<longleftrightarrow> w = []"
  by (induction f s w rule: replace_pairs.induct) auto

termination bpe_loop
proof (relation "measure (\<lambda>(rk, word). length word)")
  show "wf (measure (\<lambda>(rk :: ranks, word :: ustr list). length word))"
    by simp
next
  fix rk :: ranks and word :: "ustr list" and bigram new_word
  assume "py_min (rank_key rk) (get_pairs word) = Inr bigram"
    and nw: "new_word = merge_loop (fst bigram) (snd bigram) word 0 []"
  then have "(fst bigram, snd bigram) \<in> adjacent word"
    using py_min_in [of "rank_key rk" "get_pairs word" bigram] by (simp add: set_get_pairs)
  then have "length new_word < length word"
    unfolding nw merge_loop_replace_pairs by (rule replace_pairs_length_less)
  then show "((rk, new_word), (rk, word)) \<in> measure (\<lambda>(rk, word). length word)"
    by simp
qed

declare bpe_loop.simps [simp del]

lemma rank_key_Some: "rk p = Some r \<Longrightarrow> rank_key rk p = r"
  by (simp add: rank_key_def)

lemma rank_key_None: "rk p = None \<Longrightarrow> rank_key rk p = 10 ^ 9"
  by (simp add: rank_key_def)

lemma bpe_loop_min:
  assumes "2 \<le> length word"
  shows "\<exists>m. py_min (rank_key rk) (get_pairs word) = Inr m \<and> m \<in> adjacent word \<and>
             (\<forall>q\<in>adjacent word. rank_key rk m \<le> rank_key rk q)"
proof -
  have "get_pairs word \<noteq> []"
    using assms by (simp add: get_pairs_Nil_iff)
  from py_min_Inr [OF this, of "rank_key rk"] show ?thesis
    by (simp add: set_get_pairs)
qed

lemma bpe_loop_stops:
  assumes "2 \<le> length word" and "\<forall>p\<in>adjacent word. rk p = None"
  shows "bpe_loop rk word = Inr word"
proof -
  obtain m where "py_min (rank_key rk) (get_pairs word) = Inr m" "m \<in> adjacent word"
    using bpe_loop_min [OF assms(1)] by blast
  with assms(2) show ?thesis
    by (subst bpe_loop.simps) simp
qed

lemma bpe_loop_selects:
  assumes bound: "\<forall>p r. rk p = Some r \<longrightarrow> r < 10 ^ 9"
    and len: "2 \<le> length word"
    and elig: "\<exists>p\<in>adjacent word. rk p \<noteq> None"
  shows "\<exists>p. lowest_ranked rk word p \<and>
             bpe_loop rk word =
               (let new_word = replace_pairs (fst p) (snd p) word
                in if length new_word = 1 then Inr new_word else bpe_loop rk new_word)"
proof -
  obtain m where m: "py_min (rank_key rk) (get_pairs word) = Inr m" "m \<in> adjacent word"
    and least: "\<forall>q\<in>adjacent word. rank_key rk m \<le> rank_key rk q"
    using bpe_loop_min [OF len] by blast
  from elig obtain p r where p: "p \<in> adjacent word" "rk p = Some r"
    by auto
  with bound least have "rank_key rk m < 10 ^ 9"
    by (metis le_less_trans rank_key_Some)
  then obtain rm where rm: "rk m = Some rm"
    by (cases "rk m") (auto simp: rank_key_None)
  have "lowest_ranked rk word m"
    unfolding lowest_ranked_def
  proof (intro conjI ballI impI)
    fix q
    assume "q \<in> adjacent word" "rk q \<noteq> None"
    then show "the (rk m) \<le> the (rk q)"
      using least rm by (fastforce simp: rank_key_Some)
  qed (use m rm in auto)
  moreover have "bpe_loop rk word =
      (let new_word = replace_pairs (fst m) (snd m) word
       in if length new_word = 1 then Inr new_word else bpe_loop rk new_word)"
    using m rm by (subst bpe_loop.simps) (simp add: merge_loop_replace_pairs)
  ultimately show ?thesis by blast
qed

lemma bpe_loop_result:
  assumes "2 \<le> length word"
  shows "\<exists>w. bpe_loop rk word = Inr w \<and> w \<noteq> [] \<and> concat w = concat word \<and>
             (length w = 1 \<or> (\<forall>p\<in>adjacent w. rank_key rk p \<ge> 10 ^ 9 \<or> rk p = None))"
  using assms
proof (induction rk word rule: bpe_loop.induct)
  case (1 rk word)
  obtain m where m: "py_min (rank_key rk) (get_pairs word) = Inr m" "m \<in> adjacent word"
    and least: "\<forall>q\<in>adjacent word. rank_key rk m \<le> rank_key rk q"
    using bpe_loop_min [OF "1.prems"] by blast
  show ?case
  proof (cases "rk m")
    case None
    then have "bpe_loop rk word = Inr word"
      using m by (subst bpe_loop.simps) simp
    moreover have "\<forall>p\<in>adjacent word. rank_key rk p \<ge> 10 ^ 9 \<or> rk p = None"
      using least None by (auto simp: rank_key_None)
    ultimately show ?thesis
      using "1.prems" by auto
  next
    case (Some r)
    let ?new = "merge_loop (fst m) (snd m) word 0 []"
    have new: "?new = replace_pairs (fst m) (snd m) word"
      by (rule merge_loop_replace_pairs)
    have ne: "?new \<noteq> []"
      using "1.prems" by (auto simp: new replace_pairs_Nil_iff)
    have cc: "concat ?new = concat word"
      by (simp add: new replace_pairs_concat)
    show ?thesis
    proof (cases "length ?new = 1")
      case True
      then have "bpe_loop rk word = Inr ?new"
        using m Some by (subst bpe_loop.simps) (simp add: Let_def)
      with True ne cc show ?thesis by auto
    next
      case False
      then have eq: "bpe_loop rk word = bpe_loop rk ?new"
        using m Some by (subst bpe_loop.simps) (simp add: Let_def)
      have "2 \<le> length ?new"
        using False ne by (cases ?new; cases "tl ?new") auto
      from "1.IH" [OF m(1) _ refl False this] Some
      show ?thesis
        by (simp add: eq cc)
    qed
  qed
qed

lemma bound_unranked:
  assumes "\<forall>p r. rk p = Some r \<longrightarrow> r < 10 ^ 9" and "rank_key rk p \<ge> 10 ^ 9 \<or> rk p = None"
  shows "rk p = None"
proof (cases "rk p")
  case None
  then show ?thesis .
next
  case (Some r)
  with assms(1) have "r < 10 ^ 9" by blast
  moreover have "rank_key rk p = r"
    using Some by (rule rank_key_Some)
  ultimately show ?thesis
    using assms(2) Some by simp
qed

text \<open>
  The pairs are a Python \<^verbatim>\<open>set\<close>, whose iteration order \<^verbatim>\<open>min\<close> follows.  When
  the ranks are below the sentinel \<open>10 ^ 9\<close> and no two pairs share a rank, the order
  does not matter: two enumerations of the same pairs give the same ranked minimum, or
  both give an unranked pair (on which the loop exits).
\<close>

lemma py_min_order_irrelevant:
  assumes bound: "\<forall>p r. rk p = Some r \<longrightarrow> r < 10 ^ 9"
    and uniq: "\<forall>p q r. rk p = Some r \<and> rk q = Some r \<longrightarrow> p = q"
    and same: "set xs = set ys"
    and m: "py_min (rank_key rk) xs = Inr m" and m': "py_min (rank_key rk) ys = Inr m'"
  shows "(rk m = None \<longleftrightarrow> rk m' = None) \<and> (rk m \<noteq> None \<longrightarrow> m = m')"
proof -
  have xs: "xs \<noteq> []" and ys: "ys \<noteq> []"
    using m m' by (auto simp: py_min_def)
  have "m \<in> set xs" "m' \<in> set ys"
    using m m' by (auto dest: py_min_in)
  moreover have "\<forall>x\<in>set xs. rank_key rk m \<le> rank_key rk x"
    using py_min_Inr [OF xs, of "rank_key rk"] m by auto
  moreover have "\<forall>x\<in>set ys. rank_key rk m' \<le> rank_key rk x"
    using py_min_Inr [OF ys, of "rank_key rk"] m' by auto
  ultimately have eq: "rank_key rk m = rank_key rk m'"
    using same by (metis le_antisym)
  show ?thesis
  proof (cases "rk m")
    case None
    then have "rank_key rk m' = 10 ^ 9"
      using eq by (simp add: rank_key_None)
    then have "rk m' = None"
      using bound_unranked [OF bound, of m'] by simp
    with None show ?thesis by simp
  next
    case (Some r)
    with bound have "r < 10 ^ 9" by blast
    moreover have "rank_key rk m = r"
      using Some by (rule rank_key_Some)
    ultimately have r: "rank_key rk m' = r" "r < 10 ^ 9"
      using eq by simp_all
    then have "rk m' = Some r"
      by (cases "rk m'") (auto simp: rank_key_None rank_key_Some)
    with Some uniq have "m = m'" by blast
    with Some show ?thesis by simp
  qed
qed

lemma bpe_cases:
  "bpe rk token =
     (if token = [] then Inr []
      else if length token = 1 then Inr [token]
      else bpe_loop rk (map (\<lambda>c. [c]) token))"
proof -
  have "get_pairs (map (\<lambda>c. [c]) token) = [] \<longleftrightarrow> length token \<le> 1"
    by (simp add: get_pairs_Nil_iff)
  then show ?thesis
    by (cases token) (auto simp: bpe_def Let_def)
qed

lemma bpe_result:
  "\<exists>w. bpe rk token = Inr w \<and> concat w = token \<and>
        (token = [] \<or> length w = 1 \<or>
         (\<forall>p\<in>adjacent w. rank_key rk p \<ge> 10 ^ 9 \<or> rk p = None))"
proof (cases "2 \<le> length token")
  case True
  then have "2 \<le> length (map (\<lambda>c. [c]) token)" by simp
  from bpe_loop_result [OF this, of rk] obtain w where
    "bpe_loop rk (map (\<lambda>c. [c]) token) = Inr w"
    "concat w = concat (map (\<lambda>c. [c]) token)"
    "length w = 1 \<or> (\<forall>p\<in>adjacent w. rank_key rk p \<ge> 10 ^ 9 \<or> rk p = None)"
    by blast
  moreover have "concat (map (\<lambda>c. [c]) token) = token"
    by (induction token) auto
  ultimately show ?thesis
    using True by (auto simp: bpe_cases)
next
  case False
  then show ?thesis
    by (cases token; cases "tl token") (auto simp: bpe_cases)
qed

lemma low_ranks_bound: "\<forall>p r. low_ranks p = Some r \<longrightarrow> r < 10 ^ 9"
  by (auto simp: low_ranks_def split: if_splits)

lemma bpe_low: "bpe low_ranks (ustr_of ''low'') = Inr [ustr_of ''low'']"
  by (simp add: bpe_def low_ranks_def ustr_of_def get_pairs_def py_min_def rank_key_def
      bpe_loop.simps merge_loop_replace_pairs)

lemma utf8_encode_low: "utf8_encode (ustr_of ''low'') = Inr [108, 111, 119]"
  by (simp add: ustr_of_def utf8_encode_char_def)

lemma encode_bytes_low: "encode_bytes [108, 111, 119] = Inr (ustr_of ''low'')"
  by (simp add: ustr_of_def byte_encoder_ascii)

lemma encode_piece_low:
  "bpe_ranks tk = low_ranks \<Longrightarrow>
   encode_piece tk (ustr_of ''low'') = Inr [vocab_id (vocab tk) (ustr_of ''low'')]"
  by (simp only: encode_piece_def utf8_encode_low encode_bytes_low bpe_low sum.case list.map)

text \<open>
  Claim C1.  For every piece \<open>token\<close> the merge returns a word whose symbols concatenate
  to the piece, and that has one symbol or no adjacent pair in the rank table.  On a word
  of two or more symbols the loop exits with the word when no adjacent pair is in the
  table; otherwise it selects an adjacent pair of lowest rank among the ranked ones,
  replaces its non-overlapping occurrences from left to right by their concatenation, and
  exits if one symbol remains or else repeats.  With the table of the example, \<open>low\<close>
  merges to the single symbol \<open>low\<close> and is encoded as one id.  The ranks are line numbers
  of the merges file and are taken to be below the sentinel \<open>10 ^ 9\<close> of the source.
\<close>

theorem bpe_greedy_merge:
  assumes "\<forall>p r. rk p = Some r \<longrightarrow> r < 10 ^ 9"
  shows
    "(\<exists>w. bpe rk token = Inr w \<and> concat w = token \<and>
          (token = [] \<or> length w = 1 \<or> (\<forall>p\<in>adjacent w. rk p = None))) \<and>
     (2 \<le> length token \<longrightarrow> bpe rk token = bpe_loop rk (map (\<lambda>c. [c]) token)) \<and>
     (\<forall>word. 2 \<le> length word \<longrightarrow>
        (if \<exists>p\<in>adjacent word. rk p \<noteq> None
         then \<exists>p. lowest_ranked rk word p \<and>
                bpe_loop rk word =
                  (let new_word = replace_pairs (fst p) (snd p) word
                   in if length new_word = 1 then Inr new_word else bpe_loop rk new_word)
         else bpe_loop rk word = Inr word)) \<and>
     bpe low_ranks (ustr_of ''low'') = Inr [ustr_of ''low''] \<and>
     (\<forall>tk. bpe_ranks tk = low_ranks \<longrightarrow>
        encode_piece tk (ustr_of ''low'') = Inr [vocab_id (vocab tk) (ustr_of ''low'')])"
proof (intro conjI allI impI)
  obtain w where w: "bpe rk token = Inr w" "concat w = token"
    "token = [] \<or> length w = 1 \<or> (\<forall>p\<in>adjacent w. rank_key rk p \<ge> 10 ^ 9 \<or> rk p = None)"
    using bpe_result [of rk token] by blast
  have "rk p = None" if "rank_key rk p \<ge> 10 ^ 9 \<or> rk p = None" for p
    using assms that by (rule bound_unranked)
  with w show "\<exists>w. bpe rk token = Inr w \<and> concat w = token \<and>
      (token = [] \<or> length w = 1 \<or> (\<forall>p\<in>adjacent w. rk p = None))"
    by blast
next
  assume "2 \<le> length token"
  then show "bpe rk token = bpe_loop rk (map (\<lambda>c. [c]) token)"
    by (auto simp: bpe_cases)
next
  fix word :: "ustr list"
  assume len: "2 \<le> length word"
  show "if \<exists>p\<in>adjacent word. rk p \<noteq> None
        then \<exists>p. lowest_ranked rk word p \<and>
               bpe_loop rk word =
                 (let new_word = replace_pairs (fst p) (snd p) word
                  in if length new_word = 1 then Inr new_word else bpe_loop rk new_word)
        else bpe_loop rk word = Inr word"
  proof (cases "\<exists>p\<in>adjacent word. rk p \<noteq> None")
    case True
    with bpe_loop_selects [OF assms len True] show ?thesis
      by (simp only: if_True)
  next
    case False
    then have "\<forall>p\<in>adjacent word. rk p = None" by blast
    from bpe_loop_stops [OF len this] False show ?thesis
      by (simp only: if_False)
  qed
next
  show "bpe low_ranks (ustr_of ''low'') = Inr [ustr_of ''low'']"
    by (rule bpe_low)
next
  fix tk :: tokenizer
  assume "bpe_ranks tk = low_ranks"
  then show "encode_piece tk (ustr_of ''low'') = Inr [vocab_id (vocab tk) (ustr_of ''low'')]"
    by (rule encode_piece_low)
qed

theorem bpe_greedy_merge_witness:
  "bpe low_ranks (ustr_of ''low'') = bpe_loop low_ranks [[108], [111], [119]] \<and>
   bpe_loop low_ranks [[108], [111], [119]] = Inr [[108, 111, 119]] \<and>
   (\<exists>p. lowest_ranked low_ranks [[108], [111], [119]] p)"
proof -
  note inst = bpe_greedy_merge [OF low_ranks_bound, of "ustr_of ''low''"]
  have "2 \<le> length (ustr_of ''low'')"
    by (simp add: ustr_of_def)
  with inst have "bpe low_ranks (ustr_of ''low'') =
      bpe_loop low_ranks (map (\<lambda>c. [c]) (ustr_of ''low''))"
    by blast
  then have a: "bpe low_ranks (ustr_of ''low'') = bpe_loop low_ranks [[108], [111], [119]]"
    by (simp add: ustr_of_def)
  from inst have "bpe low_ranks (ustr_of ''low'') = Inr [ustr_of ''low'']"
    by blast
  with a have b: "bpe_loop low_ranks [[108], [111], [119]] = Inr [[108, 111, 119]]"
    by (simp add: ustr_of_def)
  have "(([108], [111]) :: ustr \<times> ustr) \<in> adjacent [[108], [111], [119]]"
    by (simp add: adjacent_def)
  moreover have "low_ranks ([108], [111]) \<noteq> None"
    by (simp add: low_ranks_def ustr_of_def)
  ultimately have ex: "\<exists>p\<in>adjacent [[108], [111], [119]]. low_ranks p \<noteq> None"
    by blast
  have len: "2 \<le> length [[108], [111], [119 :: nat]]"
    by simp
  note step = inst [THEN conjunct2, THEN conjunct2, THEN conjunct1, rule_format, OF len]
  from step ex have "\<exists>p. lowest_ranked low_ranks [[108], [111], [119]] p \<and>
      bpe_loop low_ranks [[108], [111], [119]] =
        (let new_word = replace_pairs (fst p) (snd p) [[108], [111], [119]]
         in if length new_word = 1 then Inr new_word else bpe_loop low_ranks new_word)"
    by (simp only: if_P)
  then have "\<exists>p. lowest_ranked low_ranks [[108], [111], [119]] p"
    by blast
  with a b show ?thesis
    by simp
qed

section \<open>Splitting on special-token markers\<close>

lemma find_sub_Some:
  "find_sub tok s k = Some p \<Longrightarrow>
     k \<le> p \<and> p - k \<le> length s \<and> prefix tok (drop (p - k) s) \<and>
     (\<forall>q<p - k. \<not> prefix tok (drop q s))"
proof (induction s arbitrary: k)
  case Nil
  then show ?case by (auto split: if_splits)
next
  case (Cons x xs)
  show ?case
  proof (cases "prefix tok (x # xs)")
    case True
    with Cons.prems show ?thesis by auto
  next
    case False
    with Cons.prems have "find_sub tok xs (Suc k) = Some p" by simp
    from Cons.IH [OF this] have IH: "Suc k \<le> p" "p - Suc k \<le> length xs"
      "prefix tok (drop (p - Suc k) xs)" "\<forall>q<p - Suc k. \<not> prefix tok (drop q xs)"
      by auto
    have eq: "p - k = Suc (p - Suc k)"
      using IH(1) by simp
    have "\<not> prefix tok (drop q (x # xs))" if "q < p - k" for q
      using that False IH(4) eq by (cases q) auto
    with IH eq show ?thesis by auto
  qed
qed

lemma str_find_Some:
  assumes "str_find text tok i = Some pos"
  shows "i \<le> pos \<and> pos \<le> length text \<and> prefix tok (drop pos text) \<and>
         (\<forall>q. i \<le> q \<and> q < pos \<longrightarrow> \<not> prefix tok (drop q text))"
proof -
  from assms have i: "i \<le> length text" and f: "find_sub tok (drop i text) i = Some pos"
    by (auto simp: str_find_def split: if_splits)
  note fs = find_sub_Some [OF f]
  have "\<not> prefix tok (drop q text)" if "i \<le> q \<and> q < pos" for q
  proof -
    from that have "q - i < pos - i" by auto
    with fs have "\<not> prefix tok (drop (q - i) (drop i text))" by blast
    with that show ?thesis by simp
  qed
  moreover have "prefix tok (drop pos text)"
  proof -
    have "drop (pos - i) (drop i text) = drop pos text"
      using fs by simp
    with fs show ?thesis by metis
  qed
  ultimately show ?thesis
    using fs i by auto
qed

lemma scan_inv_step:
  assumes "scan_inv text i pre nxt"
  shows "scan_inv text i (pre @ [(tok, tid)])
           (case str_find text tok i of
              None \<Rightarrow> nxt
            | Some idx \<Rightarrow>
                (case nxt of
                   None \<Rightarrow> Some (idx, tok, tid)
                 | Some (next_pos, next_tok, next_id) \<Rightarrow>
                     if idx < next_pos then Some (idx, tok, tid) else nxt))"
proof (cases "str_find text tok i")
  case None
  show ?thesis
  proof (cases nxt)
    case nxtNone: None
    with assms None show ?thesis
      by (auto simp: scan_inv_def nth_append less_Suc_eq)
  next
    case (Some a)
    obtain pos tk' td' where a: "a = (pos, tk', td')" by (cases a) auto
    with assms Some obtain k where k: "chosen_marker text i pre k pos" "pre ! k = (tk', td')"
      by (auto simp: scan_inv_def)
    then have "chosen_marker text i (pre @ [(tok, tid)]) k pos"
      using None by (auto simp: chosen_marker_def nth_append less_Suc_eq)
    moreover have "(pre @ [(tok, tid)]) ! k = (tk', td')"
      using k by (simp add: chosen_marker_def nth_append)
    ultimately show ?thesis
      using None Some a by (auto simp: scan_inv_def)
  qed
next
  case found: (Some idx)
  let ?n = "length pre"
  show ?thesis
  proof (cases nxt)
    case None
    with assms have "\<forall>k<?n. str_find text (fst (pre ! k)) i = None"
      by (simp add: scan_inv_def)
    then have "chosen_marker text i (pre @ [(tok, tid)]) ?n idx"
      using found by (auto simp: chosen_marker_def nth_append less_Suc_eq)
    then show ?thesis
      using found None by (auto simp: scan_inv_def intro!: exI [of _ ?n])
  next
    case (Some a)
    obtain pos tk' td' where a: "a = (pos, tk', td')" by (cases a) auto
    with assms Some obtain k where k: "chosen_marker text i pre k pos" "pre ! k = (tk', td')"
      by (auto simp: scan_inv_def)
    then have kn: "k < ?n" and kpos: "str_find text (fst (pre ! k)) i = Some pos"
      and others: "\<forall>k'<?n. case str_find text (fst (pre ! k')) i of
          None \<Rightarrow> True | Some pos' \<Rightarrow> pos < pos' \<or> (pos = pos' \<and> k \<le> k')"
      by (auto simp: chosen_marker_def)
    show ?thesis
    proof (cases "idx < pos")
      case True
      have "chosen_marker text i (pre @ [(tok, tid)]) ?n idx"
        unfolding chosen_marker_def
      proof (intro conjI allI impI)
        fix k'
        assume "k' < length (pre @ [(tok, tid)])"
        then consider "k' < ?n" | "k' = ?n" by fastforce
        then show "case str_find text (fst ((pre @ [(tok, tid)]) ! k')) i of
            None \<Rightarrow> True | Some pos' \<Rightarrow> idx < pos' \<or> (idx = pos' \<and> ?n \<le> k')"
        proof cases
          case 1
          with others True show ?thesis
            by (fastforce simp: nth_append split: option.splits)
        next
          case 2
          with found show ?thesis by simp
        qed
      qed (use found in auto)
      then show ?thesis
        using found Some a True by (auto simp: scan_inv_def intro!: exI [of _ ?n])
    next
      case False
      have "chosen_marker text i (pre @ [(tok, tid)]) k pos"
        unfolding chosen_marker_def
      proof (intro conjI allI impI)
        fix k'
        assume "k' < length (pre @ [(tok, tid)])"
        then consider "k' < ?n" | "k' = ?n" by fastforce
        then show "case str_find text (fst ((pre @ [(tok, tid)]) ! k')) i of
            None \<Rightarrow> True | Some pos' \<Rightarrow> pos < pos' \<or> (pos = pos' \<and> k \<le> k')"
        proof cases
          case 1
          with others show ?thesis
            by (simp add: nth_append)
        next
          case 2
          with found False kn show ?thesis by auto
        qed
      qed (use kn kpos in \<open>auto simp: nth_append\<close>)
      moreover have "(pre @ [(tok, tid)]) ! k = (tk', td')"
        using k kn by (simp add: nth_append)
      ultimately show ?thesis
        using found Some a False by (auto simp: scan_inv_def)
    qed
  qed
qed

lemma next_special_inv:
  "scan_inv text i pre nxt \<Longrightarrow>
   scan_inv text i (pre @ specials) (next_special text i specials nxt)"
proof (induction specials arbitrary: pre nxt)
  case Nil
  then show ?case by simp
next
  case (Cons a specials)
  obtain tok tid where a: "a = (tok, tid)" by (cases a) auto
  from scan_inv_step [OF Cons.prems, of tok tid]
  have "scan_inv text i ((pre @ [(tok, tid)]) @ specials)
     (next_special text i specials
        (case str_find text tok i of
              None \<Rightarrow> nxt
            | Some idx \<Rightarrow>
                (case nxt of
                   None \<Rightarrow> Some (idx, tok, tid)
                 | Some (next_pos, next_tok, next_id) \<Rightarrow>
                     if idx < next_pos then Some (idx, tok, tid) else nxt)))"
    by (rule Cons.IH)
  then show ?case
    by (simp add: a)
qed

lemma next_special_scan: "scan_inv text i specials (next_special text i specials None)"
  using next_special_inv [of "text" i "[]" None specials] by (simp add: scan_inv_def)

lemma next_special_None:
  "next_special text i specials None = None \<Longrightarrow>
   \<forall>k<length specials. str_find text (fst (specials ! k)) i = None"
  using next_special_scan [of "text" i specials] by (simp add: scan_inv_def)

lemma next_special_Some:
  "next_special text i specials None = Some (pos, tok, tid) \<Longrightarrow>
   \<exists>k. chosen_marker text i specials k pos \<and> specials ! k = (tok, tid)"
  using next_special_scan [of "text" i specials] by (simp add: scan_inv_def)

lemma chosen_marker_pos:
  "chosen_marker text i specials k pos \<Longrightarrow> i \<le> pos \<and> pos \<le> length text"
  using str_find_Some by (fastforce simp: chosen_marker_def)

lemma tokenize_loop_done:
  "length text \<le> i \<Longrightarrow> tokenize_loop tk text i ids = Some (Inr ids)"
  by (subst tokenize_loop.simps) simp

lemma tokenize_loop_returns:
  assumes "\<forall>k<length (special_to_id tk). fst (special_to_id tk ! k) \<noteq> []"
  shows "\<exists>r. tokenize_loop tk text i ids = Some r"
proof (induction "length text - i" arbitrary: i ids rule: less_induct)
  case less
  show ?case
  proof (cases "i < length text")
    case False
    then show ?thesis by (simp add: tokenize_loop_done)
  next
    case True
    show ?thesis
    proof (cases "next_special text i (special_to_id tk) None")
      case None
      with True show ?thesis
        by (subst tokenize_loop.simps) (auto split: sum.splits)
    next
      case (Some a)
      obtain pos tok tid where a: "a = (pos, tok, tid)" by (cases a) auto
      from next_special_Some [OF Some [unfolded a]] obtain k where
        k: "chosen_marker text i (special_to_id tk) k pos" "special_to_id tk ! k = (tok, tid)"
        by blast
      then have "tok \<noteq> []"
        using assms by (auto simp: chosen_marker_def)
      moreover have "i \<le> pos"
        using chosen_marker_pos [OF k(1)] by simp
      ultimately have "length text - (pos + length tok) < length text - i"
        using True by (cases tok) auto
      from less [OF this] have rec: "\<exists>r. tokenize_loop tk text (pos + length tok) ids' = Some r"
        for ids' by blast
      show ?thesis
      proof (cases "if i < pos then encode_segment tk (take (pos - i) (drop i text)) else Inr []")
        case (Inl e)
        with True Some a show ?thesis
          by (subst tokenize_loop.simps) simp
      next
        case (Inr seg)
        with True Some a rec [of "ids @ seg @ [tid]"] show ?thesis
          by (subst tokenize_loop.simps) simp
      qed
    qed
  qed
qed

text \<open>
  Claim C4, as amended.  If no marker of the table is empty, tokenization returns.  At
  each scan position \<open>i\<close> the scan picks the marker occurrence with the smallest start
  index; when several markers start at that index it picks the one that comes first in
  the table (not the longest).  The ids of the text before the marker are followed by the
  marker's reserved id, and scanning resumes behind the marker, so the marker text is
  never passed to the BPE encoder.  When no marker occurs, the rest of the text is encoded
  as one segment.
\<close>

theorem special_token_split:
  assumes "\<forall>k<length (special_to_id tk). fst (special_to_id tk ! k) \<noteq> []"
  shows
    "(\<exists>r. tokenize_to_ids tk text = Some r) \<and>
     (\<forall>i ids. i < length text \<longrightarrow>
        (case next_special text i (special_to_id tk) None of
           None \<Rightarrow>
             (\<forall>k<length (special_to_id tk). str_find text (fst (special_to_id tk ! k)) i = None) \<and>
             tokenize_loop tk text i ids =
               (case encode_segment tk (drop i text) of
                  Inl e \<Rightarrow> Some (Inl e)
                | Inr seg \<Rightarrow> Some (Inr (ids @ seg)))
         | Some (pos, tok, tid) \<Rightarrow>
             (\<exists>k. chosen_marker text i (special_to_id tk) k pos \<and>
                  special_to_id tk ! k = (tok, tid)) \<and>
             tokenize_loop tk text i ids =
               (case (if i < pos then encode_segment tk (take (pos - i) (drop i text))
                      else Inr []) of
                  Inl e \<Rightarrow> Some (Inl e)
                | Inr seg \<Rightarrow> tokenize_loop tk text (pos + length tok) (ids @ seg @ [tid]))))"
proof (intro conjI allI impI)
  obtain r where "tokenize_loop tk text 0 [] = Some r"
    using tokenize_loop_returns [OF assms] by blast
  then show "\<exists>r. tokenize_to_ids tk text = Some r"
    by (cases r) (simp_all add: tokenize_to_ids_def)
next
  fix i ids
  assume i: "i < length text"
  show "case next_special text i (special_to_id tk) None of
           None \<Rightarrow>
             (\<forall>k<length (special_to_id tk). str_find text (fst (special_to_id tk ! k)) i = None) \<and>
             tokenize_loop tk text i ids =
               (case encode_segment tk (drop i text) of
                  Inl e \<Rightarrow> Some (Inl e)
                | Inr seg \<Rightarrow> Some (Inr (ids @ seg)))
         | Some (pos, tok, tid) \<Rightarrow>
             (\<exists>k. chosen_marker text i (special_to_id tk) k pos \<and>
                  special_to_id tk ! k = (tok, tid)) \<and>
             tokenize_loop tk text i ids =
               (case (if i < pos then encode_segment tk (take (pos - i) (drop i text))
                      else Inr []) of
                  Inl e \<Rightarrow> Some (Inl e)
                | Inr seg \<Rightarrow> tokenize_loop tk text (pos + length tok) (ids @ seg @ [tid]))"
  proof (cases "next_special text i (special_to_id tk) None")
    case None
    have "tokenize_loop tk text i ids =
        (case encode_segment tk (drop i text) of
           Inl e \<Rightarrow> Some (Inl e)
         | Inr seg \<Rightarrow> Some (Inr (ids @ seg)))"
      using i None by (subst tokenize_loop.simps) simp
    with next_special_None [OF None] None show ?thesis
      by simp
  next
    case (Some a)
    obtain pos tok tid where a: "a = (pos, tok, tid)" by (cases a) auto
    have "tokenize_loop tk text i ids =
        (case (if i < pos then encode_segment tk (take (pos - i) (drop i text)) else Inr []) of
           Inl e \<Rightarrow> Some (Inl e)
         | Inr seg \<Rightarrow> tokenize_loop tk text (pos + length tok) (ids @ seg @ [tid]))"
      using i Some a by (subst tokenize_loop.simps) simp
    with next_special_Some [OF Some [unfolded a]] Some a show ?thesis
      by simp
  qed
qed

lemma demo_specials:
  "special_to_id demo_tokenizer = [(ustr_of ''ab'', 1), (ustr_of ''abc'', 2)]"
  by (simp add: demo_tokenizer_def)

lemma demo_scan_abc:
  "next_special (ustr_of ''abc'') 0 (special_to_id demo_tokenizer) None =
     Some (0, ustr_of ''ab'', 1)"
  by (simp add: demo_specials ustr_of_def str_find_def)

lemma bpe_single: "bpe rk [c] = Inr [[c]]"
  by (simp add: bpe_cases)

lemma demo_encode_c: "encode_segment demo_tokenizer (ustr_of ''c'') = Inr [7]"
  by (simp add: encode_segment_def encode_piece_def demo_tokenizer_def ustr_of_def
      utf8_encode_char_def byte_encoder_ascii bpe_single vocab_id_def)

lemma demo_tokenize_abc:
  "tokenize_to_ids demo_tokenizer (ustr_of ''abc'') = Some (Inr [1, 7])"
proof -
  have n2: "next_special (ustr_of ''abc'') 2 (special_to_id demo_tokenizer) None = None"
    by (simp add: demo_specials ustr_of_def str_find_def)
  have d2: "drop 2 (ustr_of ''abc'') = ustr_of ''c''"
    by (simp add: ustr_of_def)
  have l: "length (ustr_of ''abc'') = 3" "length (ustr_of ''ab'') = 2"
    by (simp_all add: ustr_of_def)
  have "tokenize_loop demo_tokenizer (ustr_of ''abc'') 2 [1] = Some (Inr [1, 7])"
    by (subst tokenize_loop.simps) (simp add: n2 d2 demo_encode_c l)
  then have "tokenize_loop demo_tokenizer (ustr_of ''abc'') 0 [] = Some (Inr [1, 7])"
    by (subst tokenize_loop.simps) (simp add: demo_scan_abc l)
  then show ?thesis
    by (simp add: tokenize_to_ids_def int64_array_def)
qed

lemma demo_markers_nonempty:
  "\<forall>k<length (special_to_id demo_tokenizer). fst (special_to_id demo_tokenizer ! k) \<noteq> []"
  by (auto simp: demo_specials ustr_of_def less_Suc_eq)

theorem special_token_split_witness:
  "(\<exists>r. tokenize_to_ids demo_tokenizer (ustr_of ''abc'') = Some r) \<and>
   (\<exists>k. chosen_marker (ustr_of ''abc'') 0 (special_to_id demo_tokenizer) k 0 \<and>
        special_to_id demo_tokenizer ! k = (ustr_of ''ab'', 1))"
proof -
  note inst = special_token_split [OF demo_markers_nonempty, of "ustr_of ''abc''"]
  have len: "0 < length (ustr_of ''abc'')"
    by (simp add: ustr_of_def)
  from inst have "\<exists>r. tokenize_to_ids demo_tokenizer (ustr_of ''abc'') = Some r"
    by blast
  moreover from inst [THEN conjunct2, rule_format, OF len, of "[]"]
  have "\<exists>k. chosen_marker (ustr_of ''abc'') 0 (special_to_id demo_tokenizer) k 0 \<and>
        special_to_id demo_tokenizer ! k = (ustr_of ''ab'', 1)"
    by (simp add: demo_scan_abc)
  ultimately show ?thesis by blast
qed

text \<open>
  Counterexample to claim C4 as stated.  The markers \<open>ab\<close> and \<open>abc\<close> both start at index
  \<open>0\<close> of the text \<open>abc\<close>, and \<open>abc\<close> is the longer one; the scan picks \<open>ab\<close>, the first in
  the table, so the ids are the id of \<open>ab\<close> followed by the BPE id of \<open>c\<close>.
\<close>

theorem special_token_longest_counterexample:
  "(ustr_of ''abc'', 2) \<in> set (special_to_id demo_tokenizer) \<and>
   str_find (ustr_of ''abc'') (ustr_of ''abc'') 0 = Some 0 \<and>
   str_find (ustr_of ''abc'') (ustr_of ''ab'') 0 = Some 0 \<and>
   length (ustr_of ''ab'') < length (ustr_of ''abc'') \<and>
   next_special (ustr_of ''abc'') 0 (special_to_id demo_tokenizer) None =
     Some (0, ustr_of ''ab'', 1) \<and>
   tokenize_to_ids demo_tokenizer (ustr_of ''abc'') = Some (Inr [1, 7])"
  by (simp add: demo_scan_abc demo_tokenize_abc) (simp add: demo_specials ustr_of_def str_find_def)

section \<open>Symbols without a vocabulary id\<close>

lemma utf8_encode_char_range:
  "utf8_encode_char c = Inr bs \<Longrightarrow> list_all (\<lambda>b. b < 256) bs"
  by (auto simp: utf8_encode_char_def split: if_splits)

lemma utf8_encode_range:
  "utf8_encode s = Inr bs \<Longrightarrow> list_all (\<lambda>b. b < 256) bs"
proof (induction s arbitrary: bs)
  case Nil
  then show ?case by simp
next
  case (Cons c cs)
  then show ?case
    by (auto split: sum.splits dest: utf8_encode_char_range)
qed

lemma encode_bytes_Inr:
  "list_all (\<lambda>b. b < 256) bs \<Longrightarrow> \<exists>encoded. encode_bytes bs = Inr encoded"
proof (induction bs)
  case Nil
  then show ?case by simp
next
  case (Cons b bs)
  then obtain c where "byte_encoder b = Some c"
    using byte_codec_table_total [of b] by auto
  with Cons show ?case by auto
qed

lemma bpe_Inr: "\<exists>toks. bpe rk token = Inr toks"
  using bpe_result [of rk token] by blast

lemma encode_piece_Inr:
  assumes "utf8_encode piece = Inr bytes"
  shows "\<exists>encoded toks. encode_bytes bytes = Inr encoded \<and> bpe (bpe_ranks tk) encoded = Inr toks \<and>
           encode_piece tk piece = Inr (map (vocab_id (vocab tk)) toks)"
proof -
  obtain encoded where e: "encode_bytes bytes = Inr encoded"
    using encode_bytes_Inr [OF utf8_encode_range [OF assms]] by blast
  obtain toks where t: "bpe (bpe_ranks tk) encoded = Inr toks"
    using bpe_Inr by blast
  from assms e t show ?thesis
    by (simp add: encode_piece_def)
qed

lemma encode_pieces_Inr:
  "list_all (\<lambda>p. \<exists>bs. utf8_encode p = Inr bs) pieces \<Longrightarrow>
   \<exists>ids. encode_pieces tk pieces acc = Inr ids"
proof (induction pieces arbitrary: acc)
  case Nil
  then show ?case by simp
next
  case (Cons p pieces)
  then obtain bs where "utf8_encode p = Inr bs" by auto
  from encode_piece_Inr [OF this, of tk] obtain ids where "encode_piece tk p = Inr ids"
    by blast
  with Cons show ?case by simp
qed

text \<open>
  Claim C5, as amended.  A piece that can be encoded as UTF-8 is always turned into ids:
  each symbol of the merge result gets its vocabulary id, a symbol without one gets the id
  of the vocabulary entry \<open><unk>\<close> if there is one and the id \<open>0\<close> otherwise, and no error
  is raised for it.
\<close>

theorem unknown_symbol_fallback:
  assumes "utf8_encode piece = Inr bytes"
  shows "\<exists>encoded toks.
      encode_bytes bytes = Inr encoded \<and> bpe (bpe_ranks tk) encoded = Inr toks \<and>
      encode_piece tk piece = Inr (map (vocab_id (vocab tk)) toks) \<and>
      (\<forall>tok i. vocab tk tok = Some i \<longrightarrow> vocab_id (vocab tk) tok = i) \<and>
      (\<forall>tok u. vocab tk tok = None \<and> vocab tk unk_token = Some u \<longrightarrow>
         vocab_id (vocab tk) tok = u) \<and>
      (\<forall>tok. vocab tk tok = None \<and> vocab tk unk_token = None \<longrightarrow>
         vocab_id (vocab tk) tok = 0)"
  using encode_piece_Inr [OF assms, of tk] by (auto simp: vocab_id_def)

lemma demo_utf8_x: "utf8_encode (ustr_of ''x'') = Inr [120]"
  by (simp add: ustr_of_def utf8_encode_char_def)

lemma demo_vocab_x:
  "vocab demo_tokenizer (ustr_of ''x'') = None \<and> vocab demo_tokenizer unk_token = None"
  by (simp add: demo_tokenizer_def ustr_of_def unk_token_def)

theorem unknown_symbol_fallback_witness:
  "encode_piece demo_tokenizer (ustr_of ''x'') = Inr [0]"
proof -
  from unknown_symbol_fallback [OF demo_utf8_x, of demo_tokenizer]
  obtain encoded toks where
    e: "encode_bytes [120] = Inr encoded" and
    t: "bpe (bpe_ranks demo_tokenizer) encoded = Inr toks" and
    p: "encode_piece demo_tokenizer (ustr_of ''x'') =
          Inr (map (vocab_id (vocab demo_tokenizer)) toks)" and
    z: "\<forall>tok. vocab demo_tokenizer tok = None \<and> vocab demo_tokenizer unk_token = None \<longrightarrow>
         vocab_id (vocab demo_tokenizer) tok = 0"
    by blast
  from e have "encoded = ustr_of ''x''"
    by (simp add: byte_encoder_ascii ustr_of_def)
  with t have "toks = [ustr_of ''x'']"
    by (simp add: bpe_single ustr_of_def)
  with p z demo_vocab_x show ?thesis
    by simp
qed

text \<open>
  Counterexample to claim C5 as stated.  The vocabulary has neither the symbol \<open>x\<close> nor
  an \<open><unk>\<close> entry, and tokenizing \<open>x\<close> returns the id \<open>0\<close> instead of failing.
\<close>

theorem unknown_token_error_counterexample:
  "vocab demo_tokenizer (ustr_of ''x'') = None \<and>
   vocab demo_tokenizer unk_token = None \<and>
   bpe (bpe_ranks demo_tokenizer) (ustr_of ''x'') = Inr [ustr_of ''x''] \<and>
   tokenize_to_ids demo_tokenizer (ustr_of ''x'') = Some (Inr [0])"
proof -
  have n0: "next_special (ustr_of ''x'') 0 (special_to_id demo_tokenizer) None = None"
    by (simp add: demo_specials ustr_of_def str_find_def)
  have enc: "encode_segment demo_tokenizer (ustr_of ''x'') = Inr [0]"
    by (simp add: encode_segment_def encode_piece_def demo_tokenizer_def ustr_of_def
      utf8_encode_char_def byte_encoder_ascii bpe_single vocab_id_def unk_token_def)
  have "tokenize_loop demo_tokenizer (ustr_of ''x'') 0 [] = Some (Inr [0])"
    by (subst tokenize_loop.simps) (simp add: n0 enc, simp add: ustr_of_def)
  then have "tokenize_to_ids demo_tokenizer (ustr_of ''x'') = Some (Inr [0])"
    by (simp add: tokenize_to_ids_def int64_array_def)
  moreover have "bpe (bpe_ranks demo_tokenizer) (ustr_of ''x'') = Inr [ustr_of ''x'']"
    by (simp add: bpe_single ustr_of_def)
  ultimately show ?thesis
    using demo_vocab_x by simp
qed

section \<open>Detokenization never fails\<close>

lemma decode_chars_eq: "decode_chars tok acc = acc @ List.map_filter byte_decoder tok"
  by (induction tok arbitrary: acc) (auto simp: List.map_filter_simps split: option.splits)

lemma decode_ids_eq: "decode_ids tk ids acc = acc @ concat (map (token_bytes tk) ids)"
  by (induction ids arbitrary: acc)
    (auto simp: token_bytes_def decode_chars_eq split: option.splits)

lemma map_filter_byte_decoder_range: "list_all (\<lambda>b. b < 256) (List.map_filter byte_decoder tok)"
  by (induction tok)
    (auto simp: List.map_filter_simps split: option.splits dest: byte_decoder_range)

lemma token_bytes_range: "list_all (\<lambda>b. b < 256) (token_bytes tk tid)"
  by (auto simp: token_bytes_def map_filter_byte_decoder_range split: option.splits)

lemma detokenized_bytes_range: "list_all (\<lambda>b. b < 256) (concat (map (token_bytes tk) ids))"
  by (induction ids) (auto simp: token_bytes_range)

lemma bytearray_detokenized:
  "bytearray (concat (map (token_bytes tk) ids)) = Inr (concat (map (token_bytes tk) ids))"
  by (simp add: bytearray_def detokenized_bytes_range)

lemma decode_closed:
  "decode utf8_strict utf8_ignore tk ids =
     Inr (py_strip (case utf8_strict (concat (map (token_bytes tk) ids)) of
                      Some s \<Rightarrow> s
                    | None \<Rightarrow> utf8_ignore (concat (map (token_bytes tk) ids))))"
  by (simp add: decode_def decode_ids_eq bytearray_detokenized split: option.splits)

lemma py_strip_decomp:
  "\<exists>l r. s = l @ py_strip s @ r \<and> list_all py_isspace l \<and> list_all py_isspace r"
proof -
  let ?a = "takeWhile py_isspace s" and ?b = "dropWhile py_isspace s"
  let ?r = "takeWhile py_isspace (rev ?b)"
  have "rev ?b = ?r @ dropWhile py_isspace (rev ?b)"
    by simp
  then have "?b = py_strip s @ rev ?r"
    unfolding py_strip_def by (metis rev_append rev_rev_ident)
  then have "s = ?a @ py_strip s @ rev ?r"
    by (metis takeWhile_dropWhile_id)
  moreover have "list_all py_isspace ?a"
    by (simp add: list_all_iff) (meson set_takeWhileD)
  moreover have "list_all py_isspace (rev ?r)"
    by (simp add: list_all_iff) (meson set_takeWhileD)
  ultimately show ?thesis by blast
qed

lemma py_strip_ends:
  "py_strip s = [] \<or> (\<not> py_isspace (hd (py_strip s)) \<and> \<not> py_isspace (last (py_strip s)))"
proof (cases "py_strip s = []")
  case True
  then show ?thesis by simp
next
  case False
  let ?b = "dropWhile py_isspace s"
  let ?c = "dropWhile py_isspace (rev ?b)"
  have c: "?c \<noteq> []" "py_strip s = rev ?c"
    using False by (auto simp: py_strip_def)
  then have "\<not> py_isspace (hd ?c)"
    by (metis hd_dropWhile)
  then have last: "\<not> py_isspace (last (py_strip s))"
    using c by (simp add: last_rev)
  have "rev ?b \<noteq> []"
    using c(1) by (metis dropWhile.simps(1))
  then have "?b \<noteq> []"
    by (metis rev_is_Nil_conv)
  then have hb: "\<not> py_isspace (hd ?b)"
    by (metis hd_dropWhile)
  have "rev ?b = takeWhile py_isspace (rev ?b) @ ?c"
    by simp
  then have "?b = rev ?c @ rev (takeWhile py_isspace (rev ?b))"
    by (metis rev_append rev_rev_ident)
  then have "hd ?b = hd (rev ?c)"
    using c by (metis hd_append2 rev_is_Nil_conv)
  with hb c have "\<not> py_isspace (hd (py_strip s))" by simp
  with last show ?thesis by simp
qed

lemma byte_decoder_ascii: "33 \<le> c \<Longrightarrow> c < 127 \<Longrightarrow> byte_decoder c = Some c"
  using byte_encoder_ascii [of c] by (simp add: byte_decoder_iff byte_encoder_iff)

text \<open>
  Claim C10.  For every list of ids \<open>decode\<close> returns a string (\<open>Inr\<close>): the bytes are those
  of the ids' token strings, where a special id, an id without a token string and a
  character without a byte-decoder entry contribute nothing; all of them are below 256, so
  \<^verbatim>\<open>bytearray\<close> does not raise; the bytes are decoded strictly or, when that fails, with
  the lossy decoder; and the text returned is that string without the whitespace at its
  two ends.
\<close>

theorem detokenize_total:
  "decode utf8_strict utf8_ignore tk ids =
     Inr (py_strip (case utf8_strict (concat (map (token_bytes tk) ids)) of
                      Some s \<Rightarrow> s
                    | None \<Rightarrow> utf8_ignore (concat (map (token_bytes tk) ids)))) \<and>
   list_all (\<lambda>b. b < 256) (concat (map (token_bytes tk) ids)) \<and>
   (\<forall>tid. id_to_special tk tid \<noteq> None \<longrightarrow> token_bytes tk tid = []) \<and>
   (\<forall>tid. id_to_token tk tid = None \<longrightarrow> token_bytes tk tid = []) \<and>
   (\<forall>tid tok. id_to_special tk tid = None \<and> id_to_token tk tid = Some tok \<longrightarrow>
      token_bytes tk tid = map (the \<circ> byte_decoder) (filter (\<lambda>ch. byte_decoder ch \<noteq> None) tok)) \<and>
   (\<forall>s. (\<exists>l r. s = l @ py_strip s @ r \<and> list_all py_isspace l \<and> list_all py_isspace r) \<and>
        (py_strip s = [] \<or>
         (\<not> py_isspace (hd (py_strip s)) \<and> \<not> py_isspace (last (py_strip s)))))"
proof (intro conjI allI impI)
  show "decode utf8_strict utf8_ignore tk ids =
     Inr (py_strip (case utf8_strict (concat (map (token_bytes tk) ids)) of
                      Some s \<Rightarrow> s
                    | None \<Rightarrow> utf8_ignore (concat (map (token_bytes tk) ids))))"
    by (rule decode_closed)
  show "list_all (\<lambda>b. b < 256) (concat (map (token_bytes tk) ids))"
    by (rule detokenized_bytes_range)
next
  fix tid
  assume "id_to_special tk tid \<noteq> None"
  then show "token_bytes tk tid = []"
    by (simp add: token_bytes_def)
next
  fix tid
  assume "id_to_token tk tid = None"
  then show "token_bytes tk tid = []"
    by (simp add: token_bytes_def)
next
  fix tid tok
  assume "id_to_special tk tid = None \<and> id_to_token tk tid = Some tok"
  then show "token_bytes tk tid =
      map (the \<circ> byte_decoder) (filter (\<lambda>ch. byte_decoder ch \<noteq> None) tok)"
    by (simp add: token_bytes_def List.map_filter_def)
next
  fix s
  show "\<exists>l r. s = l @ py_strip s @ r \<and> list_all py_isspace l \<and> list_all py_isspace r"
    by (rule py_strip_decomp)
  show "py_strip s = [] \<or>
      (\<not> py_isspace (hd (py_strip s)) \<and> \<not> py_isspace (last (py_strip s)))"
    by (rule py_strip_ends)
qed

theorem detokenize_total_witness:
  "decode (\<lambda>bs. if list_all (\<lambda>b. b < 128) bs then Some bs else None)
      (filter (\<lambda>b. b < 128)) demo_tokenizer [7, 1, 99, 7] = Inr (ustr_of ''cc'')"
proof -
  have t7: "token_bytes demo_tokenizer 7 = [99]"
    by (simp add: token_bytes_def demo_tokenizer_def ustr_of_def List.map_filter_simps
        byte_decoder_ascii)
  have t1: "token_bytes demo_tokenizer 1 = []"
    by (simp add: token_bytes_def demo_tokenizer_def)
  have t99: "token_bytes demo_tokenizer 99 = []"
    by (simp add: token_bytes_def demo_tokenizer_def)
  have "py_strip [99, 99] = [99, 99]"
    by (simp add: py_strip_def py_isspace_def)
  with detokenize_total
    [of "\<lambda>bs. if list_all (\<lambda>b. b < 128) bs then Some bs else None" "filter (\<lambda>b. b < 128)"
      demo_tokenizer "[7, 1, 99, 7]"]
  show ?thesis
    by (simp add: t7 t1 t99 ustr_of_def)
qed

section \<open>The generation loop\<close>




lemma image_pos_of_None: "image_token_id \<notin> set input_ids \<Longrightarrow>
    image_pos_of input_ids image_token_id = None"
proof -
  assume "image_token_id \<notin> set input_ids"
  then have "image_pos_arr input_ids image_token_id = []"
    by (auto simp: image_pos_arr_def filter_empty_conv)
  then show ?thesis
    by (simp add: image_pos_of_def)
qed


text \<open>
  Claim C9.  When the placeholder id does not occur in the prompt ids, the run prints the
  warning and returns normally (\<open>Inr\<close>): no decoder session is run and nothing is
  sampled.
\<close>

theorem missing_placeholder:
  assumes "image_token_id \<notin> set input_ids"
  shows "run_generation eng utf8_strict utf8_ignore tk zero image_token_id eos_id
           max_new_tokens rng0 input_ids text_emb vis_proj =
         Inr \<lparr>stdout = [Warn_no_image_placeholder], decoder_calls = 0, sampled = []\<rparr>"
  using image_pos_of_None [OF assms] by (simp add: run_generation_def)

theorem missing_placeholder_witness:
  "run_generation demo_engine (\<lambda>bs. Some bs) (\<lambda>bs. bs) demo_tokenizer (0::nat) 9 8 4 (0::nat)
     [3, 4, 5] [30, 40, 50] [1, 2] =
   Inr \<lparr>stdout = [Warn_no_image_placeholder], decoder_calls = 0, sampled = []\<rparr>"
proof -
  have "(9::int) \<notin> set [3, 4, 5]"
    by simp
  then show ?thesis
    by (rule missing_placeholder)
qed



end
